theory Spec2Isabelle
  imports Main "HOL-Library.Multiset"
begin

section \<open>Fixed-dimension vectors and the fixed-size stack (world/array.h)\<close>

text \<open>
  A \<^verbatim>\<open>Vector<T,N>\<close> is the array \<^verbatim>\<open>T v[N]\<close>; it is modelled as the list of its
  elements, the dimension \<open>N\<close> being passed where the source uses the template
  parameter. An array read outside \<open>0..<N\<close> is an error value.
\<close>

datatype error =
    OutOfBounds            \<comment> \<open>an array access outside the array\<close>
  | AssertionFailed        \<comment> \<open>\<^verbatim>\<open>MADNESS_ASSERT\<close> / \<^verbatim>\<open>MADNESS_CHECK\<close> failed\<close>
  | NotAnArchive           \<comment> \<open>\<^verbatim>\<open>throw("BinaryFstreamInputArchive: open: not an archive?")\<close>\<close>
  | NoSuchRecord           \<comment> \<open>load of an unknown record id\<close>
  | WrongPayload           \<comment> \<open>a record or a result is of another kind than the task's types say\<close>
  | UnsupportedDimension   \<comment> \<open>the partitioner rejects the configured dimensionality\<close>

type_synonym 'a Vector = "'a list"

text \<open>\<^verbatim>\<open>operator[]\<close>: plain array indexing, no check in the source.\<close>

definition at :: "'a Vector \<Rightarrow> nat \<Rightarrow> error + 'a" where
  "at v i = (if i < length v then Inr (v ! i) else Inl OutOfBounds)"

text \<open>
  The comparisons of a vector use four operators of the element type \<open>T\<close>:
  \<^verbatim>\<open><\<close>, \<^verbatim>\<open>>\<close>, \<^verbatim>\<open>==\<close> and \<^verbatim>\<open>!=\<close>. \<open>T\<close> is a template parameter, so the four
  operators are parameters of the model; nothing relates them to each other or
  to the equality of HOL.
\<close>

record 'a operators =
  op_lt :: "'a \<Rightarrow> 'a \<Rightarrow> bool"   \<comment> \<open>\<^verbatim>\<open>x < y\<close>\<close>
  op_gt :: "'a \<Rightarrow> 'a \<Rightarrow> bool"   \<comment> \<open>\<^verbatim>\<open>x > y\<close>\<close>
  op_eq :: "'a \<Rightarrow> 'a \<Rightarrow> bool"   \<comment> \<open>\<^verbatim>\<open>x == y\<close>\<close>
  op_ne :: "'a \<Rightarrow> 'a \<Rightarrow> bool"   \<comment> \<open>\<^verbatim>\<open>x != y\<close>\<close>

text \<open>
  \<^verbatim>\<open>operator==\<close>: \<^verbatim>\<open>for (i=0; i<N; i++) if (v[i] != other.v[i]) return false; return true;\<close>
  The loop is the recursion on \<open>i\<close>.
\<close>

function eq_loop :: "'a operators \<Rightarrow> nat \<Rightarrow> 'a Vector \<Rightarrow> 'a Vector \<Rightarrow> nat \<Rightarrow> error + bool" where
  "eq_loop ops N v other i =
     (if i < N then
        (case at v i of Inl e \<Rightarrow> Inl e | Inr x \<Rightarrow>
         case at other i of Inl e \<Rightarrow> Inl e | Inr y \<Rightarrow>
           if op_ne ops x y then Inr False else eq_loop ops N v other (Suc i))
      else Inr True)"
  by pat_completeness auto
termination
  by (relation "measure (\<lambda>(ops, N, v, other, i). N - i)") auto

declare eq_loop.simps [simp del]

definition operator_eq :: "'a operators \<Rightarrow> nat \<Rightarrow> 'a Vector \<Rightarrow> 'a Vector \<Rightarrow> error + bool" where
  "operator_eq ops N v other = eq_loop ops N v other 0"

text \<open>
  \<^verbatim>\<open>operator<\<close>:
  \<^verbatim>\<open>for (i=0; i<N; i++) { if (v[i] < other.v[i]) return true;
                            else if (v[i] > other.v[i]) return false; }
     if (v[N-1] == other.v[N-1]) return false;
     return true;\<close>
  \<open>N-1\<close> is computed in \<^verbatim>\<open>std::size_t\<close>, so for \<open>N = 0\<close> it wraps to \<open>2^64 - 1\<close>.
\<close>

definition size_t_pred :: "nat \<Rightarrow> nat" where
  "size_t_pred N = (if N = 0 then 2 ^ 64 - 1 else N - 1)"

function lt_loop :: "'a operators \<Rightarrow> nat \<Rightarrow> 'a Vector \<Rightarrow> 'a Vector \<Rightarrow> nat \<Rightarrow> error + bool" where
  "lt_loop ops N v other i =
     (if i < N then
        (case at v i of Inl e \<Rightarrow> Inl e | Inr x \<Rightarrow>
         case at other i of Inl e \<Rightarrow> Inl e | Inr y \<Rightarrow>
           if op_lt ops x y then Inr True
           else if op_gt ops x y then Inr False
           else lt_loop ops N v other (Suc i))
      else
        (case at v (size_t_pred N) of Inl e \<Rightarrow> Inl e | Inr x \<Rightarrow>
         case at other (size_t_pred N) of Inl e \<Rightarrow> Inl e | Inr y \<Rightarrow>
           if op_eq ops x y then Inr False else Inr True))"
  by pat_completeness auto
termination
  by (relation "measure (\<lambda>(ops, N, v, other, i). N - i)") auto

declare lt_loop.simps [simp del]

definition operator_lt :: "'a operators \<Rightarrow> nat \<Rightarrow> 'a Vector \<Rightarrow> 'a Vector \<Rightarrow> error + bool" where
  "operator_lt ops N v other = lt_loop ops N v other 0"

text \<open>
  Two element types. The built-in operators of an integer type (the index types
  the ordering is written for) are the order and the equality of a totally ordered
  type. The built-in operators of a floating-point type (\<^verbatim>\<open>Vector<double,NDIM>\<close>
  holds coordinates) compare the numbers by value, and every comparison with the
  unordered value NaN is false, except \<^verbatim>\<open>!=\<close>, which is true.
\<close>

definition integral_operators :: "('a::linorder) operators" where
  "integral_operators =
     \<lparr>op_lt = (\<lambda>x y. x < y), op_gt = (\<lambda>x y. y < x), op_eq = (\<lambda>x y. x = y), op_ne = (\<lambda>x y. x \<noteq> y)\<rparr>"

datatype 'a floating = NaN | Num 'a

fun floating_lt :: "('a::linorder) floating \<Rightarrow> 'a floating \<Rightarrow> bool" where
  "floating_lt (Num x) (Num y) = (x < y)"
| "floating_lt _ _ = False"

fun floating_eq :: "'a floating \<Rightarrow> 'a floating \<Rightarrow> bool" where
  "floating_eq (Num x) (Num y) = (x = y)"
| "floating_eq _ _ = False"

definition floating_operators :: "('a::linorder) floating operators" where
  "floating_operators =
     \<lparr>op_lt = floating_lt, op_gt = (\<lambda>x y. floating_lt y x),
      op_eq = floating_eq, op_ne = (\<lambda>x y. \<not> floating_eq x y)\<rparr>"

text \<open>
  The operators order a set of elements when between any two of them exactly one of
  \<^verbatim>\<open><\<close>, \<^verbatim>\<open>>\<close> and \<^verbatim>\<open>==\<close> holds, \<^verbatim>\<open>!=\<close> is the negation of \<^verbatim>\<open>==\<close>, and every element is
  \<^verbatim>\<open>==\<close> to itself.
\<close>

definition ordered_on :: "'a operators \<Rightarrow> 'a set \<Rightarrow> bool" where
  "ordered_on ops S \<longleftrightarrow>
     (\<forall>x\<in>S. \<forall>y\<in>S.
        (op_lt ops x y \<or> op_gt ops x y \<or> op_eq ops x y)
        \<and> \<not> (op_lt ops x y \<and> op_gt ops x y)
        \<and> \<not> (op_lt ops x y \<and> op_eq ops x y)
        \<and> \<not> (op_gt ops x y \<and> op_eq ops x y)
        \<and> op_ne ops x y = (\<not> op_eq ops x y))
     \<and> (\<forall>x\<in>S. op_eq ops x x)"

text \<open>
  \<^verbatim>\<open>Stack<T,N>\<close>: the members \<^verbatim>\<open>Vector<T,N> t\<close> and \<^verbatim>\<open>std::size_t n\<close>.
  \<^verbatim>\<open>Stack()\<close> leaves the elements of \<open>t\<close> uninitialised: their initial values are
  a parameter of the constructor in the model.
\<close>

record 'a Stack =
  stk_t :: "'a Vector"   \<comment> \<open>the member \<^verbatim>\<open>t\<close>\<close>
  stk_n :: nat           \<comment> \<open>the member \<^verbatim>\<open>n\<close>\<close>

definition Stack_new :: "'a Vector \<Rightarrow> 'a Stack" where
  "Stack_new uninit = \<lparr>stk_t = uninit, stk_n = 0\<rparr>"

text \<open>\<^verbatim>\<open>push\<close>: \<^verbatim>\<open>MADNESS_ASSERT(n < N); t[n++] = value;\<close>\<close>

definition push :: "nat \<Rightarrow> 'a Stack \<Rightarrow> 'a \<Rightarrow> error + 'a Stack" where
  "push N s v =
     (if \<not> stk_n s < N then Inl AssertionFailed
      else if \<not> stk_n s < length (stk_t s) then Inl OutOfBounds
      else Inr (s\<lparr>stk_t := (stk_t s)[stk_n s := v], stk_n := stk_n s + 1\<rparr>))"

text \<open>\<^verbatim>\<open>pop\<close>: \<^verbatim>\<open>MADNESS_ASSERT(n > 0); return t[--n];\<close>\<close>

definition pop :: "'a Stack \<Rightarrow> error + ('a \<times> 'a Stack)" where
  "pop s =
     (if \<not> stk_n s > 0 then Inl AssertionFailed
      else (case at (stk_t s) (stk_n s - 1) of
              Inl e \<Rightarrow> Inl e
            | Inr x \<Rightarrow> Inr (x, s\<lparr>stk_n := stk_n s - 1\<rparr>)))"

text \<open>\<^verbatim>\<open>size\<close>: \<^verbatim>\<open>return n;\<close>\<close>

definition size_Stack :: "'a Stack \<Rightarrow> nat" where
  "size_Stack s = stk_n s"

text \<open>The stacks the class can hold: the array has its \<open>N\<close> elements and \<open>n \<le> N\<close>.\<close>

definition Stack_inv :: "nat \<Rightarrow> 'a Stack \<Rightarrow> bool" where
  "Stack_inv N s \<longleftrightarrow> length (stk_t s) = N \<and> stk_n s \<le> N"

section \<open>Archives on binary file streams (world/binfsar.h)\<close>

text \<open>
  Bytes are \<^typ>\<open>char\<close>, a buffer or a file content is a \<^typ>\<open>string\<close>. The file
  system maps file names to contents; \<open>writable\<close> tells which names an output
  stream can be opened on.
\<close>

record filesystem =
  files :: "string \<rightharpoonup> string"
  writable :: "string \<Rightarrow> bool"

abbreviation NUL :: char where
  "NUL \<equiv> CHR 0x00"

text \<open>
  The array a C string literal denotes (its characters and the terminating NUL),
  and \<^verbatim>\<open>strlen\<close> on such an array: the number of characters before the first NUL.
\<close>

definition c_str :: "string \<Rightarrow> string" where
  "c_str lit = lit @ [NUL]"

definition strlen :: "string \<Rightarrow> nat" where
  "strlen s = length (takeWhile (\<lambda>c. c \<noteq> NUL) s)"

text \<open>
  \<^verbatim>\<open>strncmp(s1, s2, n)\<close>: compares at most \<open>n\<close> characters as unsigned bytes and
  stops after a NUL found in both. Reading past the end of an array is an error.
\<close>

fun strncmp :: "string \<Rightarrow> string \<Rightarrow> nat \<Rightarrow> error + int" where
  "strncmp s1 s2 0 = Inr 0"
| "strncmp (c1 # s1) (c2 # s2) (Suc k) =
     (if c1 \<noteq> c2 then Inr (int (of_char c1 :: nat) - int (of_char c2 :: nat))
      else if c1 = NUL then Inr 0
      else strncmp s1 s2 k)"
| "strncmp _ _ (Suc k) = Inl OutOfBounds"

text \<open>
  \<^verbatim>\<open>std::ofstream\<close>: the file it is open on (none when it is closed or the open
  failed) and the bytes written to the stream that have not reached the file yet;
  \<^verbatim>\<open>flush\<close> and \<^verbatim>\<open>close\<close> append them to the file. Writing to a stream that is
  not open does nothing.

  How many of the bytes reach the file at a write, before any flush, is the business
  of the library's stream buffer. The stream carries that policy in \<open>os_through\<close>:
  given the number of bytes pending and the number of bytes of the write, it tells
  how many of the pending and the written bytes, in this order, go to the file at
  once; the others stay pending.
\<close>

record ofstream =
  os_file :: "string option"
  os_pending :: string
  os_through :: "nat \<Rightarrow> nat \<Rightarrow> nat"

definition ofstream_closed :: "(nat \<Rightarrow> nat \<Rightarrow> nat) \<Rightarrow> ofstream" where
  "ofstream_closed through = \<lparr>os_file = None, os_pending = [], os_through = through\<rparr>"

text \<open>
  The policy of libstdc++ (\<^verbatim>\<open>basic_filebuf::xsputn\<close>, with the buffer of 8192 bytes
  of which 8191 are usable): a write of at least 1024 bytes, or one that does not fit
  the free part of the buffer, goes to the file at once together with what was
  pending; a shorter write is only copied into the buffer.
\<close>

definition libstdcxx_through :: "nat \<Rightarrow> nat \<Rightarrow> nat" where
  "libstdcxx_through pending n = (if min 1024 (8191 - pending) \<le> n then pending + n else 0)"

text \<open>Appending bytes to a file; a file that does not exist counts as empty.\<close>

definition append_file :: "filesystem \<Rightarrow> string \<Rightarrow> string \<Rightarrow> filesystem" where
  "append_file fs f bs =
     fs\<lparr>files := (files fs)(f \<mapsto> (case files fs f of None \<Rightarrow> [] | Some c \<Rightarrow> c) @ bs)\<rparr>"

text \<open>
  \<^verbatim>\<open>os.open(filename, binary | out | trunc)\<close> on the stream of a new archive, whose
  buffer has the policy \<open>through\<close>: the file is created or emptied.
\<close>

definition ofstream_open ::
    "(nat \<Rightarrow> nat \<Rightarrow> nat) \<Rightarrow> filesystem \<Rightarrow> string \<Rightarrow> filesystem \<times> ofstream" where
  "ofstream_open through fs filename =
     (if writable fs filename
      then (fs\<lparr>files := (files fs)(filename \<mapsto> [])\<rparr>,
            \<lparr>os_file = Some filename, os_pending = [], os_through = through\<rparr>)
      else (fs, ofstream_closed through))"

definition ofstream_write :: "filesystem \<Rightarrow> ofstream \<Rightarrow> string \<Rightarrow> filesystem \<times> ofstream" where
  "ofstream_write fs os bs =
     (case os_file os of
        None \<Rightarrow> (fs, os)
      | Some f \<Rightarrow>
          (let out = os_pending os @ bs;
               k = os_through os (length (os_pending os)) (length bs)
           in (append_file fs f (take k out), os\<lparr>os_pending := drop k out\<rparr>)))"

definition ofstream_flush :: "filesystem \<Rightarrow> ofstream \<Rightarrow> filesystem \<times> ofstream" where
  "ofstream_flush fs os =
     (case os_file os of
        None \<Rightarrow> (fs, os)
      | Some f \<Rightarrow> (append_file fs f (os_pending os), os\<lparr>os_pending := []\<rparr>))"

definition ofstream_close :: "filesystem \<Rightarrow> ofstream \<Rightarrow> filesystem \<times> ofstream" where
  "ofstream_close fs os = (fst (ofstream_flush fs os), ofstream_closed (os_through os))"

text \<open>
  \<^verbatim>\<open>BinaryFstreamOutputArchive\<close> has the one member \<^verbatim>\<open>os\<close>; the archive is modelled
  as that stream. \<^verbatim>\<open>store(t, n)\<close> is \<^verbatim>\<open>os.write((const char*) t, n*sizeof(T))\<close>: the
  argument of the model is the byte image of the \<open>n\<close> objects.
\<close>

definition BinaryFstreamOutputArchive_store ::
    "filesystem \<Rightarrow> ofstream \<Rightarrow> string \<Rightarrow> filesystem \<times> ofstream" where
  "BinaryFstreamOutputArchive_store fs os bs = ofstream_write fs os bs"

text \<open>
  \<^verbatim>\<open>open\<close>: \<^verbatim>\<open>os.open(filename, mode); store(ARCHIVE_COOKIE, strlen(ARCHIVE_COOKIE)+1);\<close>
  with the default mode. The macro \<^verbatim>\<open>ARCHIVE_COOKIE\<close> (a string literal of
  world/archive.h) is the parameter \<open>cookie\<close>.
\<close>

definition BinaryFstreamOutputArchive_open ::
    "(nat \<Rightarrow> nat \<Rightarrow> nat) \<Rightarrow> string \<Rightarrow> filesystem \<Rightarrow> string \<Rightarrow> filesystem \<times> ofstream" where
  "BinaryFstreamOutputArchive_open through cookie fs filename =
     (let (fs', os) = ofstream_open through fs filename
      in BinaryFstreamOutputArchive_store fs' os
           (take (strlen (c_str cookie) + 1) (c_str cookie)))"

definition BinaryFstreamOutputArchive_close :: "filesystem \<Rightarrow> ofstream \<Rightarrow> filesystem \<times> ofstream" where
  "BinaryFstreamOutputArchive_close fs os = ofstream_close fs os"


text \<open>
  \<^verbatim>\<open>std::ifstream\<close>: the content of the file it was opened on, the read position
  and the fail bit. Opening a file that does not exist sets the fail bit. A read of
  \<open>k\<close> bytes into a buffer overwrites the front of the buffer with the bytes that are
  there, and fails when they are fewer than \<open>k\<close>; on a failed stream it reads nothing.
\<close>

record ifstream =
  is_content :: string
  is_pos :: nat
  is_fail :: bool

definition ifstream_open :: "filesystem \<Rightarrow> string \<Rightarrow> ifstream" where
  "ifstream_open fs filename =
     (case files fs filename of
        None \<Rightarrow> \<lparr>is_content = [], is_pos = 0, is_fail = True\<rparr>
      | Some c \<Rightarrow> \<lparr>is_content = c, is_pos = 0, is_fail = False\<rparr>)"

definition ifstream_read :: "ifstream \<Rightarrow> string \<Rightarrow> nat \<Rightarrow> string \<times> ifstream" where
  "ifstream_read is buf k =
     (if is_fail is then (buf, is)
      else let got = take k (drop (is_pos is) (is_content is))
           in (got @ drop (length got) buf,
               is\<lparr>is_pos := is_pos is + length got, is_fail := length got < k\<rparr>))"

text \<open>\<^verbatim>\<open>load(t, n)\<close> is \<^verbatim>\<open>is.read((char*) t, n*sizeof(T))\<close>; for \<^verbatim>\<open>char\<close>, \<open>n\<close> bytes.\<close>

definition BinaryFstreamInputArchive_load :: "ifstream \<Rightarrow> string \<Rightarrow> nat \<Rightarrow> string \<times> ifstream" where
  "BinaryFstreamInputArchive_load is buf k = ifstream_read is buf k"

text \<open>
  \<^verbatim>\<open>open\<close>:
  \<^verbatim>\<open>is.open(filename, mode); char cookie[255]; int n = strlen(ARCHIVE_COOKIE)+1;
     load(cookie, n);
     if (strncmp(cookie,ARCHIVE_COOKIE,n) != 0) throw("... not an archive?");\<close>
  The local array \<^verbatim>\<open>cookie\<close> is not initialised: its 255 initial bytes are the
  parameter \<open>uninit\<close>. A cookie that does not fit the array is an out-of-bounds write.
\<close>

definition BinaryFstreamInputArchive_open ::
    "string \<Rightarrow> filesystem \<Rightarrow> string \<Rightarrow> string \<Rightarrow> error + ifstream" where
  "BinaryFstreamInputArchive_open cookie fs filename uninit =
     (let is = ifstream_open fs filename;
          k = strlen (c_str cookie) + 1
      in if length uninit < k then Inl OutOfBounds
         else let (buf, is') = BinaryFstreamInputArchive_load is uninit k
              in case strncmp buf (c_str cookie) k of
                   Inl e \<Rightarrow> Inl e
                 | Inr r \<Rightarrow> if r \<noteq> 0 then Inl NotAnArchive else Inr is')"

text \<open>
  Writing a list of byte images one after the other, as successive \<^verbatim>\<open>store\<close> calls
  do, from a state of the file system and of the archive.
\<close>

fun store_all :: "filesystem \<times> ofstream \<Rightarrow> string list \<Rightarrow> filesystem \<times> ofstream" where
  "store_all (fs, os) [] = (fs, os)"
| "store_all (fs, os) (bs # bss) = store_all (BinaryFstreamOutputArchive_store fs os bs) bss"

text \<open>
  The bytes that went into a file through a stream so far: those that reached the
  file, followed by those still pending in the stream.
\<close>

definition stream_image :: "filesystem \<Rightarrow> ofstream \<Rightarrow> string \<Rightarrow> string" where
  "stream_image fs os f = (case files fs f of None \<Rightarrow> [] | Some c \<Rightarrow> c) @ os_pending os"

section \<open>Batches and the partitioner\<close>

text \<open>
  Modelled from the spec: the classes \<^verbatim>\<open>Batch\<close>, \<^verbatim>\<open>Batch_1D\<close> and
  \<^verbatim>\<open>MacroTaskPartitioner\<close> (mra/macrotaskpartitioner.h) are not part of the sources
  at hand. A range is the whole collection (the placeholder \<^verbatim>\<open>_\<close> of the source's
  \<^verbatim>\<open>Batch(_,_,_)\<close>) or the half-open interval from \<open>begin\<close> to \<open>end\<close>; the step of
  a range is 1 throughout and is left out. A batch has one range for each input
  collection and one for the output collection.
\<close>

datatype Batch_1D = Whole | Span nat nat

record Batch =
  b_input :: "Batch_1D list"
  b_result :: Batch_1D

definition range_begin :: "Batch_1D \<Rightarrow> nat" where
  "range_begin r = (case r of Whole \<Rightarrow> 0 | Span b e \<Rightarrow> b)"

text \<open>
  Modelled from the spec: the indices of a collection of length \<open>L\<close> that a range
  of a batch addresses (\<^verbatim>\<open>Batch_1D\<close> is not in the sources at hand).
\<close>

definition range_indices :: "nat \<Rightarrow> Batch_1D \<Rightarrow> nat set" where
  "range_indices L r = (case r of Whole \<Rightarrow> {0..<L} | Span b e \<Rightarrow> {b..<e})"

text \<open>
  Modelled from the spec: \<^verbatim>\<open>Batch_1D::copy_batch\<close> is not in the sources at hand.
  Extracting the slice of a collection that a range addresses.
\<close>

definition copy_batch :: "Batch_1D \<Rightarrow> 'x list \<Rightarrow> 'x list" where
  "copy_batch r v = (case r of Whole \<Rightarrow> v | Span b e \<Rightarrow> take (e - b) (drop b v))"

text \<open>
  Modelled from the spec: \<^verbatim>\<open>Batch_1D::insert_batch\<close> is not in the sources at hand.
  Inserting a partial result into the slice of a collection that starts where the
  range begins; the elements outside the slice are kept.
\<close>

definition insert_batch :: "Batch_1D \<Rightarrow> 'x list \<Rightarrow> 'x list \<Rightarrow> 'x list" where
  "insert_batch r v v_batch =
     take (range_begin r) v @ v_batch @ drop (range_begin r + length v_batch) v"

text \<open>
  The arguments of a task: a scalar (\<^verbatim>\<open>double\<close>), a numerical field
  (\<^verbatim>\<open>real_function_3d\<close>) or an ordered collection of fields. Fields and scalars are
  opaque: \<open>'f\<close> and \<open>'s\<close>. A result is a field or a collection of fields.
\<close>

datatype ('s, 'f) arg = Scalar 's | Fn 'f | FnVec "'f list"

type_synonym ('s, 'f) argtupleT = "('s, 'f) arg list"

datatype 'f resultT = RFn 'f | RVec "'f list"

text \<open>
  Modelled from the spec: \<^verbatim>\<open>Batch::copy_input_batch\<close> is not in the sources at hand.
  It gives the sliced sub-tuple of the inputs: the collections of the tuple are
  sliced by the input ranges of the batch, in order; the other arguments are copied.
\<close>

fun copy_ranges :: "Batch_1D list \<Rightarrow> ('s, 'f) argtupleT \<Rightarrow> ('s, 'f) argtupleT" where
  "copy_ranges rs [] = []"
| "copy_ranges [] (a # as) = a # copy_ranges [] as"
| "copy_ranges (r # rs) (FnVec v # as) = FnVec (copy_batch r v) # copy_ranges rs as"
| "copy_ranges (r # rs) (a # as) = a # copy_ranges (r # rs) as"

text \<open>Modelled from the spec: \<^verbatim>\<open>copy_input_batch\<close> with the input ranges of the batch.\<close>

definition copy_input_batch :: "Batch \<Rightarrow> ('s, 'f) argtupleT \<Rightarrow> ('s, 'f) argtupleT" where
  "copy_input_batch batch argtuple = copy_ranges (b_input batch) argtuple"

text \<open>
  Modelled from the spec: \<^verbatim>\<open>Batch::insert_result_batch\<close> is not in the sources at
  hand. The partial result goes into the output range of the batch.
\<close>

definition insert_result_batch :: "Batch \<Rightarrow> 'f list \<Rightarrow> 'f list \<Rightarrow> 'f list" where
  "insert_result_batch batch v v_batch = insert_batch (b_result batch) v v_batch"

text \<open>
  Modelled from the spec: the partitioner has a granularity (the target batch size)
  and a dimensionality. For 1-D partitioning the batches are contiguous chunks of
  at most the granularity, the remainder being the final chunk; when the
  granularity is at least the input length there is exactly one batch. The spec
  gives a granularity of 0 no meaning: the chunking stops there.
\<close>

record MacroTaskPartitioner =
  granularity :: nat
  dimension :: nat
  nsubworld :: nat

definition set_nsubworld :: "nat \<Rightarrow> MacroTaskPartitioner \<Rightarrow> MacroTaskPartitioner" where
  "set_nsubworld k p = p\<lparr>nsubworld := k\<rparr>"

definition set_dimension :: "nat \<Rightarrow> MacroTaskPartitioner \<Rightarrow> MacroTaskPartitioner" where
  "set_dimension d p = p\<lparr>dimension := d\<rparr>"

text \<open>
  Modelled from the spec: the contiguous chunks of at most \<open>g\<close> elements of the
  indices from \<open>b\<close> up to \<open>L\<close>, the last chunk being the remainder.
\<close>

function chunks :: "nat \<Rightarrow> nat \<Rightarrow> nat \<Rightarrow> (nat \<times> nat) list" where
  "chunks b L g =
     (if b < L \<and> 0 < g then (b, min (b + g) L) # chunks (min (b + g) L) L g else [])"
  by pat_completeness auto
termination
  by (relation "measure (\<lambda>(b, L, g). L - b)") auto

declare chunks.simps [simp del]

text \<open>
  Modelled from the spec: the 1-D partition of a collection of length \<open>L\<close> for the
  granularity \<open>g\<close>; exactly one batch when the granularity is at least the length.
\<close>

definition do_1d_partition :: "nat \<Rightarrow> nat \<Rightarrow> (nat \<times> nat) list" where
  "do_1d_partition L g = (if L \<le> g then [(0, L)] else chunks 0 L g)"

text \<open>
  Modelled from the spec: for 2-D partitioning the batches are the rectangular blocks of the Cartesian
  product of the chunks of two collections; the output range of a block is the
  range of its first collection (the source: "result batches are the same as f1
  batches").
\<close>

definition do_2d_partition :: "nat \<Rightarrow> nat \<Rightarrow> nat \<Rightarrow> ((nat \<times> nat) \<times> (nat \<times> nat)) list" where
  "do_2d_partition L1 L2 g =
     concat (map (\<lambda>r1. map (\<lambda>r2. (r1, r2)) (do_1d_partition L2 g)) (do_1d_partition L1 g))"

text \<open>The lengths of the collections of an argument tuple, in order.\<close>

fun vector_sizes :: "('s, 'f) argtupleT \<Rightarrow> nat list" where
  "vector_sizes [] = []"
| "vector_sizes (FnVec v # as) = length v # vector_sizes as"
| "vector_sizes (a # as) = vector_sizes as"

text \<open>
  Modelled from the spec: \<^verbatim>\<open>MacroTaskPartitioner::partition_tasks\<close> is not in the
  sources at hand. The batches of an argument tuple for the configured
  dimensionality, taken over the first collection(s) of the tuple; a dimensionality
  that the tuple does not support is rejected.
\<close>

definition partition_tasks ::
    "MacroTaskPartitioner \<Rightarrow> ('s, 'f) argtupleT \<Rightarrow> error + Batch list" where
  "partition_tasks p argtuple =
     (case (dimension p, vector_sizes argtuple) of
        (Suc 0, L # _) \<Rightarrow>
          Inr (map (\<lambda>(b, e). \<lparr>b_input = [Span b e], b_result = Span b e\<rparr>)
                   (do_1d_partition L (granularity p)))
      | (Suc (Suc 0), L1 # L2 # _) \<Rightarrow>
          Inr (map (\<lambda>((b1, e1), (b2, e2)).
                      \<lparr>b_input = [Span b1 e1, Span b2 e2], b_result = Span b1 e1\<rparr>)
                   (do_2d_partition L1 L2 (granularity p)))
      | _ \<Rightarrow> Inl UnsupportedDimension)"

section \<open>The distributed store\<close>

text \<open>
  Modelled from the spec: the class \<^verbatim>\<open>Cloud\<close> (world/cloud.h) is not part of the
  sources at hand. A payload carries its type tag: a scalar, a field, a collection
  of fields, or the placeholder of an output object, which is the pointer (or the
  pointers) to the implementation of a function that lives in the universe. The
  store of one epoch is the list of the payloads registered so far; a record id is
  the position of its payload. \<^verbatim>\<open>store\<close> returns the id of an identical payload
  stored before, or else registers the payload under a fresh id; \<^verbatim>\<open>load\<close> of an
  unknown id fails with "no such record"; \<^verbatim>\<open>clear\<close> starts a new epoch.
\<close>

datatype ('s, 'f) payload =
    PScalar 's
  | PFn 'f
  | PFnVec "'f list"
  | PImpl nat
  | PImplVec "nat list"

type_synonym recordT = nat
type_synonym recordlistT = "recordT list"
type_synonym ('s, 'f) Cloud = "('s, 'f) payload list"

text \<open>Modelled from the spec: the record id under which a payload is stored, if it is.\<close>

fun find_record :: "('s, 'f) payload \<Rightarrow> ('s, 'f) Cloud \<Rightarrow> recordT option" where
  "find_record x [] = None"
| "find_record x (y # ys) =
     (if x = y then Some 0 else map_option Suc (find_record x ys))"

text \<open>
  Modelled from the spec: \<^verbatim>\<open>Cloud::store\<close> is not in the sources at hand. The
  existing id for a payload stored before in this epoch, else a fresh id.
\<close>

definition store :: "('s, 'f) payload \<Rightarrow> ('s, 'f) Cloud \<Rightarrow> recordT \<times> ('s, 'f) Cloud" where
  "store x c = (case find_record x c of
                  Some i \<Rightarrow> (i, c)
                | None \<Rightarrow> (length c, c @ [x]))"

text \<open>
  Modelled from the spec: \<^verbatim>\<open>Cloud::load\<close> is not in the sources at hand. The payload
  of a record id; an unknown id fails with "no such record".
\<close>

definition load :: "recordT \<Rightarrow> ('s, 'f) Cloud \<Rightarrow> error + ('s, 'f) payload" where
  "load i c = (if i < length c then Inr (c ! i) else Inl NoSuchRecord)"

text \<open>Modelled from the spec: \<^verbatim>\<open>Cloud::clear\<close>, the reset between two runs.\<close>

definition clear :: "('s, 'f) Cloud \<Rightarrow> ('s, 'f) Cloud" where
  "clear c = []"

text \<open>
  Modelled from the spec: the payload of an argument and back, one case for each
  kind of payload.
\<close>

definition arg_payload :: "('s, 'f) arg \<Rightarrow> ('s, 'f) payload" where
  "arg_payload a = (case a of Scalar s \<Rightarrow> PScalar s | Fn f \<Rightarrow> PFn f | FnVec v \<Rightarrow> PFnVec v)"

definition payload_arg :: "('s, 'f) payload \<Rightarrow> error + ('s, 'f) arg" where
  "payload_arg x = (case x of
                      PScalar s \<Rightarrow> Inr (Scalar s)
                    | PFn f \<Rightarrow> Inr (Fn f)
                    | PFnVec v \<Rightarrow> Inr (FnVec v)
                    | PImpl a \<Rightarrow> Inl WrongPayload
                    | PImplVec as \<Rightarrow> Inl WrongPayload)"

text \<open>
  Modelled from the spec: \<^verbatim>\<open>cloud.store(world, argtuple)\<close> stores the elements of the
  tuple one by one and returns their record ids.
\<close>

fun store_argtuple ::
    "('s, 'f) argtupleT \<Rightarrow> ('s, 'f) Cloud \<Rightarrow> recordlistT \<times> ('s, 'f) Cloud" where
  "store_argtuple [] c = ([], c)"
| "store_argtuple (a # as) c =
     (let (i, c') = store (arg_payload a) c;
          (is, c'') = store_argtuple as c'
      in (i # is, c''))"

text \<open>
  Modelled from the spec: \<^verbatim>\<open>cloud.load<argtupleT>(world, inputrecords)\<close> loads the
  elements of the tuple back; a record of another kind is an error.
\<close>

fun load_argtuple :: "recordlistT \<Rightarrow> ('s, 'f) Cloud \<Rightarrow> error + ('s, 'f) argtupleT" where
  "load_argtuple [] c = Inr []"
| "load_argtuple (i # is) c =
     (case load i c of
        Inl e \<Rightarrow> Inl e
      | Inr x \<Rightarrow>
          (case payload_arg x of
             Inl e \<Rightarrow> Inl e
           | Inr a \<Rightarrow>
               (case load_argtuple is c of
                  Inl e \<Rightarrow> Inl e
                | Inr as \<Rightarrow> Inr (a # as))))"

section \<open>Functions of the universe\<close>

text \<open>
  Modelled from the spec: the function classes (mra/mra.h) are not part of the
  sources at hand. A \<^verbatim>\<open>real_function_3d\<close> is a shared pointer to its implementation
  (\<^verbatim>\<open>get_impl\<close>, \<^verbatim>\<open>set_impl\<close> in the source): the functions
  of the universe are the cells of a heap, and a function (or a vector of
  functions) that the caller holds is the address (or the list of addresses) of
  its cells. \<^verbatim>\<open>result += x\<close> updates the cell in place, so the caller sees what
  the tasks accumulate. Addition and zero of the fields are those of \<open>'f\<close>.
\<close>

datatype handle = HFn nat | HVec "nat list"

text \<open>Placing a freshly allocated result in the universe.\<close>

definition alloc :: "'f resultT \<Rightarrow> 'f list \<Rightarrow> handle \<times> 'f list" where
  "alloc r h = (case r of
                  RFn x \<Rightarrow> (HFn (length h), h @ [x])
                | RVec xs \<Rightarrow> (HVec [length h..<length h + length xs], h @ xs))"

text \<open>The value a function (vector) of the universe has at the moment.\<close>

definition deref_cell :: "'f list \<Rightarrow> nat \<Rightarrow> error + 'f" where
  "deref_cell h a = (if a < length h then Inr (h ! a) else Inl OutOfBounds)"

fun deref_cells :: "'f list \<Rightarrow> nat list \<Rightarrow> error + 'f list" where
  "deref_cells h [] = Inr []"
| "deref_cells h (a # as) =
     (case deref_cell h a of
        Inl e \<Rightarrow> Inl e
      | Inr x \<Rightarrow> (case deref_cells h as of Inl e \<Rightarrow> Inl e | Inr xs \<Rightarrow> Inr (x # xs)))"

definition deref :: "'f list \<Rightarrow> handle \<Rightarrow> error + 'f resultT" where
  "deref h r = (case r of
                  HFn a \<Rightarrow> (case deref_cell h a of Inl e \<Rightarrow> Inl e | Inr x \<Rightarrow> Inr (RFn x))
                | HVec as \<Rightarrow> (case deref_cells h as of Inl e \<Rightarrow> Inl e | Inr xs \<Rightarrow> Inr (RVec xs)))"

text \<open>\<^verbatim>\<open>f += x\<close> on a function, and on a vector of functions (element by element; the
  two vectors must have the same size).\<close>

definition add_fn :: "nat \<Rightarrow> ('f::plus) \<Rightarrow> 'f list \<Rightarrow> error + 'f list" where
  "add_fn a x h = (if a < length h then Inr (h[a := h ! a + x]) else Inl OutOfBounds)"

fun add_vec :: "nat list \<Rightarrow> ('f::plus) list \<Rightarrow> 'f list \<Rightarrow> error + 'f list" where
  "add_vec [] [] h = Inr h"
| "add_vec (a # as) (x # xs) h =
     (case add_fn a x h of Inl e \<Rightarrow> Inl e | Inr h' \<Rightarrow> add_vec as xs h')"
| "add_vec _ _ h = Inl AssertionFailed"

section \<open>Macro tasks (mra/test_vectormacrotask.cc)\<close>

text \<open>
  A task type (\<^verbatim>\<open>MicroTask\<close>, \<^verbatim>\<open>MicroTask1\<close>, \<^verbatim>\<open>MicroTask2\<close>): its call operator and
  its allocator, and the members \<^verbatim>\<open>batch\<close> and \<^verbatim>\<open>partitioner\<close> of \<^verbatim>\<open>MicroTaskBase\<close>.
  The numerical routines of the call operators are opaque: the operator is any
  function from the argument tuple to the result. The world argument of the
  allocator does not influence the value it returns.
\<close>

record ('s, 'f) taskT =
  task_op :: "('s, 'f) argtupleT \<Rightarrow> 'f resultT"
  allocator :: "('s, 'f) argtupleT \<Rightarrow> 'f resultT"
  batch :: Batch
  partitioner :: "MacroTaskPartitioner option"

text \<open>\<^verbatim>\<open>MicroTaskBase() : batch(Batch(_,_,_)), partitioner(new MacroTaskPartitioner)\<close>\<close>

definition MicroTaskBase ::
    "MacroTaskPartitioner \<Rightarrow> (('s, 'f) argtupleT \<Rightarrow> 'f resultT) \<Rightarrow>
     (('s, 'f) argtupleT \<Rightarrow> 'f resultT) \<Rightarrow> ('s, 'f) taskT" where
  "MicroTaskBase new_partitioner call alloc_fn =
     \<lparr>task_op = call, allocator = alloc_fn,
      batch = \<lparr>b_input = [Whole, Whole], b_result = Whole\<rparr>,
      partitioner = Some new_partitioner\<rparr>"

text \<open>
  Modelled from the spec: the status of a task record and its priority are members
  of the base class \<^verbatim>\<open>MacroTaskBase\<close> (mra/macrotaskq.h), which is not part of the
  sources at hand. The constructor of \<^verbatim>\<open>MacroTaskInternal\<close> sets no priority: every
  record it makes has the one initial priority of the base class.
\<close>

datatype Status = Waiting | Dispatched | Running | Done

definition default_priority :: nat where
  "default_priority = 1"

record ('s, 'f) MacroTaskInternal =
  task :: "('s, 'f) taskT"
  inputrecords :: recordlistT
  outputrecords :: recordlistT
  priority :: nat
  stat :: Status

text \<open>
  The constructor: \<^verbatim>\<open>task(task), inputrecords(inputrecords), outputrecords(outputrecords)\<close>
  and \<^verbatim>\<open>this->task.batch=batch;\<close>
\<close>

definition MacroTaskInternal_new ::
    "('s, 'f) taskT \<Rightarrow> Batch \<Rightarrow> recordlistT \<Rightarrow> recordlistT \<Rightarrow> ('s, 'f) MacroTaskInternal" where
  "MacroTaskInternal_new tsk b inrecs outrecs =
     \<lparr>task = tsk\<lparr>batch := b\<rparr>, inputrecords = inrecs, outputrecords = outrecs,
      priority = default_priority, stat = Waiting\<rparr>"

text \<open>
  \<^verbatim>\<open>get_output\<close>: the output function (vector) of the universe, rebuilt from the
  implementation pointer(s) loaded from the output record. The source selects the
  branch by the result type of the task; the model by the tag of the payload, which
  \<^verbatim>\<open>prepare_output\<close> chose by the same type.
\<close>

definition get_output :: "('s, 'f) MacroTaskInternal \<Rightarrow> ('s, 'f) Cloud \<Rightarrow> error + handle" where
  "get_output r c =
     (case outputrecords r of
        [] \<Rightarrow> Inl NoSuchRecord
      | i # _ \<Rightarrow>
          (case load i c of
             Inl e \<Rightarrow> Inl e
           | Inr (PImpl a) \<Rightarrow> Inr (HFn a)
           | Inr (PImplVec as) \<Rightarrow> Inr (HVec as)
           | Inr _ \<Rightarrow> Inl WrongPayload))"

text \<open>
  \<^verbatim>\<open>run\<close>:
  \<^verbatim>\<open>argtuple = cloud.load<argtupleT>(subworld, inputrecords);
     batched_argtuple = task.batch.copy_input_batch(argtuple);
     result_tmp = std::apply(task, batched_argtuple);
     result = get_output(subworld, cloud, argtuple);
     if constexpr (is_madness_function<resultT>::value) {
         result_tmp.compress(); result += result_tmp;
     } else if constexpr (is_madness_function_vector<resultT>::value) {
         compress(subworld, result_tmp);
         tmp1 = task.allocator(subworld, argtuple);
         tmp1 = task.batch.insert_result_batch(tmp1, result_tmp);
         result += tmp1;
     }\<close>
  \<^verbatim>\<open>compress\<close> changes the representation of a function, not its value. A result
  whose kind differs from the kind of the output object does not type-check in the
  source; in the model it is the error \<open>WrongPayload\<close>.
\<close>

definition run ::
    "('s, 'f::plus) MacroTaskInternal \<Rightarrow> ('s, 'f) Cloud \<Rightarrow> 'f list \<Rightarrow> error + 'f list" where
  "run r c h =
     (case load_argtuple (inputrecords r) c of
        Inl e \<Rightarrow> Inl e
      | Inr argtuple \<Rightarrow>
          (let batched_argtuple = copy_input_batch (batch (task r)) argtuple;
               result_tmp = task_op (task r) batched_argtuple
           in case get_output r c of
                Inl e \<Rightarrow> Inl e
              | Inr (HFn a) \<Rightarrow>
                  (case result_tmp of
                     RFn x \<Rightarrow> add_fn a x h
                   | RVec _ \<Rightarrow> Inl WrongPayload)
              | Inr (HVec as) \<Rightarrow>
                  (case result_tmp of
                     RFn _ \<Rightarrow> Inl WrongPayload
                   | RVec xs \<Rightarrow>
                       (case allocator (task r) argtuple of
                          RFn _ \<Rightarrow> Inl WrongPayload
                        | RVec tmp1 \<Rightarrow>
                            add_vec as (insert_result_batch (batch (task r)) tmp1 xs) h))))"

section \<open>The task queue\<close>

text \<open>
  Modelled from the spec: the class \<^verbatim>\<open>MacroTaskQ\<close> (mra/macrotaskq.h) is not part of
  the sources at hand. The queue owns its records and its store. Submitting puts
  the records in priority order, higher priorities first, equal priorities in the
  order of submission. \<^verbatim>\<open>run_all\<close> repeatedly selects the Waiting record of the
  highest priority, takes it from Waiting over Dispatched to Running, executes it
  and makes it Done, until no Waiting record is left; a record that fails ends the
  run with its error. The dispatch loop is sequential (it waits for the subworld to
  finish); the parallel execution inside a subworld is not modelled. The records
  that the immediate mode passes to \<^verbatim>\<open>run_all\<close> are in the queue already.
\<close>

record World =
  world_id :: nat
  world_size :: nat

record ('s, 'f) MacroTaskQ =
  taskq :: "('s, 'f) MacroTaskInternal list"
  cloud :: "('s, 'f) Cloud"
  q_world :: World
  q_nsubworld :: nat

text \<open>Modelled from the spec: a new queue has no records and an empty store.\<close>

definition MacroTaskQ_new :: "World \<Rightarrow> nat \<Rightarrow> ('s, 'f) MacroTaskQ" where
  "MacroTaskQ_new w k = \<lparr>taskq = [], cloud = [], q_world = w, q_nsubworld = k\<rparr>"

text \<open>
  Modelled from the spec: \<^verbatim>\<open>add_tasks\<close> puts each record behind the records of the
  same or a higher priority and makes it Waiting.
\<close>

fun insert_by_priority ::
    "('s, 'f) MacroTaskInternal \<Rightarrow> ('s, 'f) MacroTaskInternal list \<Rightarrow> ('s, 'f) MacroTaskInternal list" where
  "insert_by_priority r [] = [r]"
| "insert_by_priority r (x # xs) =
     (if priority x < priority r then r # x # xs else x # insert_by_priority r xs)"

definition add_tasks :: "('s, 'f) MacroTaskInternal list \<Rightarrow> ('s, 'f) MacroTaskQ \<Rightarrow> ('s, 'f) MacroTaskQ" where
  "add_tasks vtask q =
     q\<lparr>taskq := foldl (\<lambda>ts r. insert_by_priority (r\<lparr>stat := Waiting\<rparr>) ts) (taskq q) vtask\<rparr>"

text \<open>The position of the first record that satisfies \<open>P\<close>.\<close>

fun first_index :: "('x \<Rightarrow> bool) \<Rightarrow> 'x list \<Rightarrow> nat option" where
  "first_index P [] = None"
| "first_index P (x # xs) = (if P x then Some 0 else map_option Suc (first_index P xs))"

text \<open>
  Modelled from the spec: the Waiting record of the highest priority, the first one
  in the queue among equals.
\<close>

definition highest_waiting :: "('s, 'f) MacroTaskInternal list \<Rightarrow> nat option" where
  "highest_waiting ts =
     (case map priority (filter (\<lambda>r. stat r = Waiting) ts) of
        [] \<Rightarrow> None
      | p # ps \<Rightarrow> first_index (\<lambda>r. stat r = Waiting \<and> priority r = fold max ps p) ts)"

definition set_stat :: "nat \<Rightarrow> Status \<Rightarrow> ('s, 'f) MacroTaskQ \<Rightarrow> ('s, 'f) MacroTaskQ" where
  "set_stat i s q = q\<lparr>taskq := (taskq q)[i := (taskq q ! i)\<lparr>stat := s\<rparr>]\<rparr>"

definition n_waiting :: "('s, 'f) MacroTaskInternal list \<Rightarrow> nat" where
  "n_waiting ts = length (filter (\<lambda>r. stat r = Waiting) ts)"

lemma first_index_Some:
  "first_index P xs = Some i \<Longrightarrow> i < length xs \<and> P (xs ! i) \<and> (\<forall>j<i. \<not> P (xs ! j))"
proof (induction xs arbitrary: i)
  case Nil
  then show ?case by simp
next
  case (Cons x xs)
  show ?case
  proof (cases "P x")
    case True
    then show ?thesis using Cons.prems by simp
  next
    case False
    then obtain i' where i': "first_index P xs = Some i'" "i = Suc i'"
      using Cons.prems by auto
    have "i' < length xs \<and> P (xs ! i') \<and> (\<forall>j<i'. \<not> P (xs ! j))"
      using Cons.IH[OF i'(1)] .
    then show ?thesis using i'(2) False by (auto simp: less_Suc_eq_0_disj)
  qed
qed

lemma highest_waiting_Some:
  "highest_waiting ts = Some i \<Longrightarrow> i < length ts \<and> stat (ts ! i) = Waiting"
  unfolding highest_waiting_def
  by (auto split: list.splits dest: first_index_Some)

lemma n_waiting_decreases:
  "i < length ts \<Longrightarrow> stat (ts ! i) = Waiting \<Longrightarrow> s \<noteq> Waiting \<Longrightarrow>
   n_waiting (ts[i := (ts ! i)\<lparr>stat := s\<rparr>]) < n_waiting ts"
proof (induction ts arbitrary: i)
  case Nil
  then show ?case by simp
next
  case (Cons x xs)
  show ?case
  proof (cases i)
    case 0
    then show ?thesis using Cons.prems by (simp add: n_waiting_def)
  next
    case (Suc i')
    then have "n_waiting (xs[i' := (xs ! i')\<lparr>stat := s\<rparr>]) < n_waiting xs"
      using Cons.IH[of i'] Cons.prems by simp
    then show ?thesis using Suc by (simp add: n_waiting_def)
  qed
qed

text \<open>
  Modelled from the spec: the dispatch loop of \<^verbatim>\<open>MacroTaskQ::run_all\<close>, which is not
  in the sources at hand. It calls \<^verbatim>\<open>run\<close> of the source on the selected record.
\<close>

function run_all_loop ::
    "('s, 'f::plus) MacroTaskQ \<Rightarrow> 'f list \<Rightarrow> error + (('s, 'f) MacroTaskQ \<times> 'f list)" where
  "run_all_loop q h =
     (case highest_waiting (taskq q) of
        None \<Rightarrow> Inr (q, h)
      | Some i \<Rightarrow>
          (let q1 = set_stat i Dispatched q;
               q2 = set_stat i Running q1
           in case run (taskq q2 ! i) (cloud q2) h of
                Inl e \<Rightarrow> Inl e
              | Inr h' \<Rightarrow> run_all_loop (set_stat i Done q2) h'))"
  by pat_completeness auto
termination
proof (relation "measure (\<lambda>(q, h). n_waiting (taskq q))")
  show "wf (measure (\<lambda>(q, h). n_waiting (taskq q)))" by simp
next
  fix q :: "('s, 'f) MacroTaskQ" and h :: "'f list" and i q1 q2 h'
  assume sel: "highest_waiting (taskq q) = Some i"
    and q1: "q1 = set_stat i Dispatched q" and q2: "q2 = set_stat i Running q1"
  have i: "i < length (taskq q)" "stat (taskq q ! i) = Waiting"
    using highest_waiting_Some[OF sel] by simp_all
  have "taskq (set_stat i Done q2) = (taskq q)[i := (taskq q ! i)\<lparr>stat := Done\<rparr>]"
    using i by (simp add: q1 q2 set_stat_def)
  then have "n_waiting (taskq (set_stat i Done q2)) < n_waiting (taskq q)"
    using n_waiting_decreases[OF i, of Done] by simp
  then show "((set_stat i Done q2, h'), (q, h)) \<in> measure (\<lambda>(q, h). n_waiting (taskq q))"
    by simp
qed

declare run_all_loop.simps [simp del]

text \<open>
  Modelled from the spec: \<^verbatim>\<open>run_all(vtask)\<close> drains the queue; the records \<open>vtask\<close>
  have been submitted before the call.
\<close>

definition run_all ::
    "('s, 'f::plus) MacroTaskQ \<Rightarrow> 'f list \<Rightarrow> ('s, 'f) MacroTaskInternal list \<Rightarrow>
     error + (('s, 'f) MacroTaskQ \<times> 'f list)" where
  "run_all q h vtask = run_all_loop q h"

section \<open>The macro task front end (mra/test_vectormacrotask.cc)\<close>

text \<open>
  The universe: the functions that live in it and the task queues that shared
  pointers refer to. A \<^verbatim>\<open>std::shared_ptr<MacroTaskQ>\<close> is the position of its queue,
  the null pointer is \<open>None\<close>.
\<close>

record ('s, 'f) universe =
  impls :: "'f list"
  queues :: "('s, 'f) MacroTaskQ list"

record ('s, 'f) MacroTask_2G =
  mt_world :: World
  mt_task :: "('s, 'f) taskT"
  taskq_ptr :: "nat option"

text \<open>
  The constructor:
  \<^verbatim>\<open>if (taskq_ptr) MADNESS_CHECK(world.id()==taskq_ptr->get_world().id());\<close>
\<close>

definition MacroTask_2G_new ::
    "World \<Rightarrow> ('s, 'f) taskT \<Rightarrow> nat option \<Rightarrow> ('s, 'f) universe \<Rightarrow> error + ('s, 'f) MacroTask_2G" where
  "MacroTask_2G_new w tsk qp u =
     (case qp of
        None \<Rightarrow> Inr \<lparr>mt_world = w, mt_task = tsk, taskq_ptr = None\<rparr>
      | Some p \<Rightarrow>
          if \<not> p < length (queues u) then Inl OutOfBounds
          else if world_id w \<noteq> world_id (q_world (queues u ! p)) then Inl AssertionFailed
          else Inr \<lparr>mt_world = w, mt_task = tsk, taskq_ptr = Some p\<rparr>)"

text \<open>
  \<^verbatim>\<open>prepare_output\<close>: \<^verbatim>\<open>result = task.allocator(world, argtuple)\<close> is created in the
  universe and the pointer(s) to its implementation are stored in the cloud.
\<close>

definition prepare_output ::
    "('s, 'f) taskT \<Rightarrow> ('s, 'f) Cloud \<Rightarrow> 'f list \<Rightarrow> ('s, 'f) argtupleT \<Rightarrow>
     recordlistT \<times> handle \<times> ('s, 'f) Cloud \<times> 'f list" where
  "prepare_output tsk c h argtuple =
     (let (result, h') = alloc (allocator tsk argtuple) h;
          (i, c') = store (case result of HFn a \<Rightarrow> PImpl a | HVec as \<Rightarrow> PImplVec as) c
      in ([i], result, c', h'))"

text \<open>
  \<^verbatim>\<open>operator()\<close>:
  \<^verbatim>\<open>const bool immediate_execution = (not taskq_ptr);
     if (not taskq_ptr) taskq_ptr.reset(new MacroTaskQ(world, world.size()));
     auto partitioner=task.partitioner;
     if (not partitioner) partitioner.reset(new MacroTaskPartitioner);
     partitioner->set_nsubworld(world.size());
     partitionT partition = partitioner->partition_tasks(argtuple);
     recordlistT inputrecords = taskq_ptr->cloud.store(world, argtuple);
     auto[outputrecords, result] = prepare_output(taskq_ptr->cloud, argtuple);
     for (const Batch &batch : partition)
         vtask.push_back(... new MacroTaskInternal(task, batch, inputrecords, outputrecords));
     taskq_ptr->add_tasks(vtask);
     if (immediate_execution) taskq_ptr->run_all(vtask);
     return result;\<close>
  \<open>taskq_ptr\<close> and \<open>task\<close> are members: the call returns the object as it is after
  the call. What \<^verbatim>\<open>new MacroTaskPartitioner\<close> constructs is the parameter
  \<open>new_partitioner\<close>. \<^verbatim>\<open>set_nsubworld\<close> acts on the partitioner the task's pointer
  shares. The local \<^verbatim>\<open>partition\<close> is \<open>batches\<close>.
\<close>

definition MacroTask_2G_call ::
    "MacroTaskPartitioner \<Rightarrow> ('s, 'f::plus) MacroTask_2G \<Rightarrow> ('s, 'f) argtupleT \<Rightarrow> ('s, 'f) universe \<Rightarrow>
     error + (handle \<times> ('s, 'f) MacroTask_2G \<times> ('s, 'f) universe)" where
  "MacroTask_2G_call new_partitioner mt argtuple u =
     (let immediate_execution = (taskq_ptr mt = None);
          (qp, u1) = (case taskq_ptr mt of
                        None \<Rightarrow> (length (queues u),
                                  u\<lparr>queues := queues u @
                                       [MacroTaskQ_new (mt_world mt) (world_size (mt_world mt))]\<rparr>)
                      | Some p \<Rightarrow> (p, u));
          part = set_nsubworld (world_size (mt_world mt))
                   (case partitioner (mt_task mt) of None \<Rightarrow> new_partitioner | Some p \<Rightarrow> p);
          tsk = (case partitioner (mt_task mt) of
                   None \<Rightarrow> mt_task mt
                 | Some _ \<Rightarrow> (mt_task mt)\<lparr>partitioner := Some part\<rparr>);
          mt1 = mt\<lparr>taskq_ptr := Some qp, mt_task := tsk\<rparr>
      in if \<not> qp < length (queues u1) then Inl OutOfBounds
         else
           (case partition_tasks part argtuple of
              Inl e \<Rightarrow> Inl e
            | Inr batches \<Rightarrow>
                (let q = queues u1 ! qp;
                     (inputrecords, c1) = store_argtuple argtuple (cloud q);
                     (outputrecords, result, c2, h2) = prepare_output tsk c1 (impls u1) argtuple;
                     vtask = map (\<lambda>b. MacroTaskInternal_new tsk b inputrecords outputrecords) batches;
                     q2 = add_tasks vtask (q\<lparr>cloud := c2\<rparr>)
                 in if immediate_execution then
                      (case run_all q2 h2 vtask of
                         Inl e \<Rightarrow> Inl e
                       | Inr (q3, h3) \<Rightarrow>
                           Inr (result, mt1, u1\<lparr>impls := h3, queues := (queues u1)[qp := q3]\<rparr>))
                    else Inr (result, mt1, u1\<lparr>impls := h2, queues := (queues u1)[qp := q2]\<rparr>))))"

text \<open>\<^verbatim>\<open>taskq->run_all()\<close> by the owner of a queue.\<close>

definition taskq_run_all ::
    "nat \<Rightarrow> ('s, 'f::plus) universe \<Rightarrow> error + ('s, 'f) universe" where
  "taskq_run_all qp u =
     (if \<not> qp < length (queues u) then Inl OutOfBounds
      else case run_all (queues u ! qp) (impls u) [] of
             Inl e \<Rightarrow> Inl e
           | Inr (q', h') \<Rightarrow> Inr (u\<lparr>impls := h', queues := (queues u)[qp := q']\<rparr>))"

section \<open>The test drivers (mra/test_vectormacrotask.cc)\<close>

text \<open>
  \<^verbatim>\<open>test_immediate\<close>, \<^verbatim>\<open>test_deferred\<close> and \<^verbatim>\<open>test_twice\<close> up to the comparison with the
  reference: the models return the value of the result vector(s) at the point where
  the source checks them. \<^verbatim>\<open>test_twice\<close> returns in addition the store of the queue
  and the input records of the queued task records.
\<close>

definition test_immediate ::
    "MacroTaskPartitioner \<Rightarrow> World \<Rightarrow> ('s, 'f::plus) taskT \<Rightarrow> ('s, 'f) argtupleT \<Rightarrow> ('s, 'f) universe \<Rightarrow>
     error + 'f resultT" where
  "test_immediate new_partitioner w t args u =
     (case MacroTask_2G_new w t None u of
        Inl e \<Rightarrow> Inl e
      | Inr task_immediate \<Rightarrow>
          (case MacroTask_2G_call new_partitioner task_immediate args u of
             Inl e \<Rightarrow> Inl e
           | Inr (v, _, u') \<Rightarrow> deref (impls u') v))"

definition test_deferred ::
    "MacroTaskPartitioner \<Rightarrow> World \<Rightarrow> ('s, 'f::plus) taskT \<Rightarrow> ('s, 'f) argtupleT \<Rightarrow> ('s, 'f) universe \<Rightarrow>
     error + 'f resultT" where
  "test_deferred new_partitioner w t args u =
     (let qp = length (queues u);
          u1 = u\<lparr>queues := queues u @ [MacroTaskQ_new w (world_size w)]\<rparr>
      in case MacroTask_2G_new w t (Some qp) u1 of
           Inl e \<Rightarrow> Inl e
         | Inr tsk \<Rightarrow>
             (case MacroTask_2G_call new_partitioner tsk args u1 of
                Inl e \<Rightarrow> Inl e
              | Inr (f2a, _, u2) \<Rightarrow>
                  (case taskq_run_all qp u2 of
                     Inl e \<Rightarrow> Inl e
                   | Inr u3 \<Rightarrow> deref (impls u3) f2a)))"

definition test_twice ::
    "MacroTaskPartitioner \<Rightarrow> World \<Rightarrow> ('s, 'f::plus) taskT \<Rightarrow> ('s, 'f) argtupleT \<Rightarrow> ('s, 'f) universe \<Rightarrow>
     error + ('f resultT \<times> 'f resultT \<times> ('s, 'f) Cloud \<times> recordlistT list)" where
  "test_twice new_partitioner w t args u =
     (let qp = length (queues u);
          u1 = u\<lparr>queues := queues u @ [MacroTaskQ_new w (world_size w)]\<rparr>
      in case MacroTask_2G_new w t (Some qp) u1 of
           Inl e \<Rightarrow> Inl e
         | Inr tsk \<Rightarrow>
             (case MacroTask_2G_call new_partitioner tsk args u1 of
                Inl e \<Rightarrow> Inl e
              | Inr (f2a1, tsk1, u2) \<Rightarrow>
                  (case MacroTask_2G_call new_partitioner tsk1 args u2 of
                     Inl e \<Rightarrow> Inl e
                   | Inr (f2a2, _, u3) \<Rightarrow>
                       (case taskq_run_all qp u3 of
                          Inl e \<Rightarrow> Inl e
                        | Inr u4 \<Rightarrow>
                            (case deref (impls u4) f2a1 of
                               Inl e \<Rightarrow> Inl e
                             | Inr v1 \<Rightarrow>
                                 (case deref (impls u4) f2a2 of
                                    Inl e \<Rightarrow> Inl e
                                  | Inr v2 \<Rightarrow>
                                      Inr (v1, v2, cloud (queues u4 ! qp),
                                           map inputrecords (taskq (queues u4 ! qp)))))))))"

text \<open>
  Calling the same \<^verbatim>\<open>MacroTask_2G\<close> object, constructed without a queue, twice: the
  values of the two results after the second call.
\<close>

definition immediate_twice ::
    "MacroTaskPartitioner \<Rightarrow> World \<Rightarrow> ('s, 'f::plus) taskT \<Rightarrow> ('s, 'f) argtupleT \<Rightarrow> ('s, 'f) universe \<Rightarrow>
     error + ('f resultT \<times> 'f resultT \<times> Status list)" where
  "immediate_twice new_partitioner w t args u =
     (case MacroTask_2G_new w t None u of
        Inl e \<Rightarrow> Inl e
      | Inr task_immediate \<Rightarrow>
          (case MacroTask_2G_call new_partitioner task_immediate args u of
             Inl e \<Rightarrow> Inl e
           | Inr (v1, task1, u1) \<Rightarrow>
               (case MacroTask_2G_call new_partitioner task1 args u1 of
                  Inl e \<Rightarrow> Inl e
                | Inr (v2, task2, u2) \<Rightarrow>
                    (case deref (impls u2) v1 of
                       Inl e \<Rightarrow> Inl e
                     | Inr r1 \<Rightarrow>
                         (case deref (impls u2) v2 of
                            Inl e \<Rightarrow> Inl e
                          | Inr r2 \<Rightarrow>
                              Inr (r1, r2,
                                   (case taskq_ptr task2 of
                                      None \<Rightarrow> []
                                    | Some qp \<Rightarrow> map stat (taskq (queues u2 ! qp)))))))))"

section \<open>Auxiliary notions for the proofs\<close>

text \<open>Running records one after the other on one store.\<close>

fun run_seq ::
    "('s, 'f::plus) MacroTaskInternal list \<Rightarrow> ('s, 'f) Cloud \<Rightarrow> 'f list \<Rightarrow> error + 'f list" where
  "run_seq [] c h = Inr h"
| "run_seq (r # rs) c h = (case run r c h of Inl e \<Rightarrow> Inl e | Inr h' \<Rightarrow> run_seq rs c h')"

text \<open>
  What a record adds to the universe: the cells of its output object and the values
  it adds to them. It depends on the record and on the store only.
\<close>

definition contribution ::
    "('s, 'f) MacroTaskInternal \<Rightarrow> ('s, 'f) Cloud \<Rightarrow> error + (nat list \<times> 'f list)" where
  "contribution r c =
     (case load_argtuple (inputrecords r) c of
        Inl e \<Rightarrow> Inl e
      | Inr argtuple \<Rightarrow>
          (case get_output r c of
             Inl e \<Rightarrow> Inl e
           | Inr (HFn a) \<Rightarrow>
               (case task_op (task r) (copy_input_batch (batch (task r)) argtuple) of
                  RFn x \<Rightarrow> Inr ([a], [x])
                | RVec _ \<Rightarrow> Inl WrongPayload)
           | Inr (HVec as) \<Rightarrow>
               (case task_op (task r) (copy_input_batch (batch (task r)) argtuple) of
                  RFn _ \<Rightarrow> Inl WrongPayload
                | RVec xs \<Rightarrow>
                    (case allocator (task r) argtuple of
                       RFn _ \<Rightarrow> Inl WrongPayload
                     | RVec tmp1 \<Rightarrow>
                         Inr (as, insert_result_batch (batch (task r)) tmp1 xs)))))"

text \<open>
  A task is well shaped on an argument tuple and a list of batches when each batch
  result is of the kind of the allocated output and, for a vector, fits into it at
  the place where the output range of the batch begins.
\<close>

fun result_fits :: "'f resultT \<Rightarrow> Batch \<Rightarrow> 'f resultT \<Rightarrow> bool" where
  "result_fits (RFn z) b (RFn x) = True"
| "result_fits (RVec zs) b (RVec xs) = (range_begin (b_result b) + length xs \<le> length zs)"
| "result_fits _ b _ = False"

definition well_shaped :: "('s, 'f) taskT \<Rightarrow> ('s, 'f) argtupleT \<Rightarrow> Batch list \<Rightarrow> bool" where
  "well_shaped t args bs =
     list_all (\<lambda>b. result_fits (allocator t args) b (task_op t (copy_input_batch b args))) bs"

text \<open>
  The part of \<^verbatim>\<open>operator()\<close> between the choice of the queue and the optional
  \<^verbatim>\<open>run_all\<close>, as a function of the queue and of the functions of the universe:
  the result, the task with its partitioner, the queue and the functions after the
  records have been added.
\<close>

definition submit ::
    "MacroTaskPartitioner \<Rightarrow> World \<Rightarrow> ('s, 'f) taskT \<Rightarrow> ('s, 'f) argtupleT \<Rightarrow> ('s, 'f) MacroTaskQ \<Rightarrow>
     'f list \<Rightarrow> error + (handle \<times> ('s, 'f) taskT \<times> ('s, 'f) MacroTaskQ \<times> 'f list)" where
  "submit new_partitioner w t argtuple q h =
     (let part = set_nsubworld (world_size w)
                   (case partitioner t of None \<Rightarrow> new_partitioner | Some p \<Rightarrow> p);
          tsk = (case partitioner t of
                   None \<Rightarrow> t
                 | Some _ \<Rightarrow> t\<lparr>partitioner := Some part\<rparr>)
      in case partition_tasks part argtuple of
           Inl e \<Rightarrow> Inl e
         | Inr batches \<Rightarrow>
             (let (inputrecords, c1) = store_argtuple argtuple (cloud q);
                  (outputrecords, result, c2, h2) = prepare_output tsk c1 h argtuple;
                  vtask = map (\<lambda>b. MacroTaskInternal_new tsk b inputrecords outputrecords) batches
              in Inr (result, tsk, add_tasks vtask (q\<lparr>cloud := c2\<rparr>), h2)))"

text \<open>The records of a queue after a run: every Waiting record has become Done.\<close>

definition mark_done :: "('s, 'f) MacroTaskInternal list \<Rightarrow> ('s, 'f) MacroTaskInternal list" where
  "mark_done ts = map (\<lambda>r. if stat r = Waiting then r\<lparr>stat := Done\<rparr> else r) ts"

text \<open>
  The cells of a handle, the values of a result, the payload that stands for a
  handle in the store, and the values that the record of a batch adds to the cells
  of its output object.
\<close>

definition handle_cells :: "handle \<Rightarrow> nat list" where
  "handle_cells r = (case r of HFn a \<Rightarrow> [a] | HVec as \<Rightarrow> as)"

definition cells_of :: "'f resultT \<Rightarrow> 'f list" where
  "cells_of r = (case r of RFn x \<Rightarrow> [x] | RVec xs \<Rightarrow> xs)"

definition handle_payload :: "handle \<Rightarrow> ('s, 'f) payload" where
  "handle_payload r = (case r of HFn a \<Rightarrow> PImpl a | HVec as \<Rightarrow> PImplVec as)"

definition batch_value :: "('s, 'f) taskT \<Rightarrow> ('s, 'f) argtupleT \<Rightarrow> Batch \<Rightarrow> 'f list" where
  "batch_value t args b =
     (case task_op t (copy_input_batch b args) of
        RFn x \<Rightarrow> [x]
      | RVec xs \<Rightarrow> insert_result_batch b (cells_of (allocator t args)) xs)"

text \<open>
  The partitioner that \<^verbatim>\<open>operator()\<close> uses for a task in a world, and the task as
  the call leaves it (\<^verbatim>\<open>set_nsubworld\<close> has acted on its partitioner).
\<close>

definition effective_partitioner ::
    "MacroTaskPartitioner \<Rightarrow> World \<Rightarrow> ('s, 'f) taskT \<Rightarrow> MacroTaskPartitioner" where
  "effective_partitioner new_partitioner w t =
     set_nsubworld (world_size w)
       (case partitioner t of None \<Rightarrow> new_partitioner | Some p \<Rightarrow> p)"

definition task_after_call ::
    "MacroTaskPartitioner \<Rightarrow> World \<Rightarrow> ('s, 'f) taskT \<Rightarrow> ('s, 'f) taskT" where
  "task_after_call new_partitioner w t =
     (case partitioner t of
        None \<Rightarrow> t
      | Some _ \<Rightarrow> t\<lparr>partitioner := Some (effective_partitioner new_partitioner w t)\<rparr>)"

section \<open>The tasks of the test\<close>

text \<open>
  \<^verbatim>\<open>MicroTask::allocator\<close> and \<^verbatim>\<open>MicroTask2::allocator\<close>:
  \<^verbatim>\<open>n = std::get<2>(argtuple).size(); zero_functions_compressed<double,3>(world, n)\<close>;
  \<^verbatim>\<open>MicroTask1::allocator\<close>: \<^verbatim>\<open>real_factory_3d(world).compressed()\<close>, the zero function.
  An argument tuple of another shape does not type-check in the source.
\<close>

definition MicroTask_allocator :: "('s, 'f::zero) argtupleT \<Rightarrow> 'f resultT" where
  "MicroTask_allocator argtuple =
     (case argtuple of
        [_, _, FnVec f2] \<Rightarrow> RVec (replicate (length f2) 0)
      | _ \<Rightarrow> RVec [])"

definition MicroTask1_allocator :: "('s, 'f::zero) argtupleT \<Rightarrow> 'f resultT" where
  "MicroTask1_allocator argtuple = RFn 0"

text \<open>
  The call operators of the tasks are numerical routines (\<^verbatim>\<open>arg2 * f1 * apply(world,op,f2)\<close>,
  \<^verbatim>\<open>arg2 * f1 * inner(f2,f2)\<close>). For concrete instances the fields and scalars are
  integers, \<^verbatim>\<open>apply\<close> is the identity and \<^verbatim>\<open>inner\<close> the sum of the squares.
\<close>

definition MicroTask_call :: "(int, int) argtupleT \<Rightarrow> int resultT" where
  "MicroTask_call argtuple =
     (case argtuple of
        [Fn f1, Scalar arg2, FnVec f2] \<Rightarrow> RVec (map (\<lambda>x. arg2 * f1 * x) f2)
      | _ \<Rightarrow> RVec [])"

definition MicroTask1_call :: "(int, int) argtupleT \<Rightarrow> int resultT" where
  "MicroTask1_call argtuple =
     (case argtuple of
        [Fn f1, Scalar arg2, FnVec f2] \<Rightarrow> RFn (arg2 * f1 * sum_list (map (\<lambda>x. x * x) f2))
      | _ \<Rightarrow> RFn 0)"

definition partitioner2 :: MacroTaskPartitioner where
  "partitioner2 = \<lparr>granularity = 2, dimension = 1, nsubworld = 1\<rparr>"

definition MicroTask :: "(int, int) taskT" where
  "MicroTask = MicroTaskBase partitioner2 MicroTask_call MicroTask_allocator"

definition MicroTask1 :: "(int, int) taskT" where
  "MicroTask1 = MicroTaskBase partitioner2 MicroTask1_call MicroTask1_allocator"

definition universe0 :: "(int, int) universe" where
  "universe0 = \<lparr>impls = [], queues = []\<rparr>"

definition world0 :: World where
  "world0 = \<lparr>world_id = 0, world_size = 1\<rparr>"

definition v3_args :: "(int, int) argtupleT" where
  "v3_args = [Fn 3, Scalar 2, FnVec [3, 5, 7]]"

text \<open>
  The two batches of the three-element vector for granularity 2, the store after
  the arguments and the output placeholder have been stored, and the record of a
  task with a batch on that store.
\<close>

definition batch_0_2 :: Batch where
  "batch_0_2 = \<lparr>b_input = [Span 0 2], b_result = Span 0 2\<rparr>"

definition batch_2_3 :: Batch where
  "batch_2_3 = \<lparr>b_input = [Span 2 3], b_result = Span 2 3\<rparr>"

definition cloud_vec :: "(int, int) Cloud" where
  "cloud_vec = [PFn 3, PScalar 2, PFnVec [3, 5, 7], PImplVec [0, 1, 2]]"

definition cloud_fn :: "(int, int) Cloud" where
  "cloud_fn = [PFn 3, PScalar 2, PFnVec [3, 5, 7], PImpl 0]"

definition record_of :: "(int, int) taskT \<Rightarrow> Batch \<Rightarrow> (int, int) MacroTaskInternal" where
  "record_of t b = MacroTaskInternal_new t b [0, 1, 2] [3]"


section \<open>Properties of the vector order and of the stack\<close>

lemma integral_operators_ordered: "ordered_on integral_operators S"
  by (auto simp: ordered_on_def integral_operators_def)

lemma floating_operators_ordered:
  assumes "NaN \<notin> S"
  shows "ordered_on floating_operators S"
proof -
  have num: "\<exists>a. x = Num a" if "x \<in> S" for x :: "'a floating"
    using that assms by (cases x) auto
  have pair: "(op_lt floating_operators x y \<or> op_gt floating_operators x y \<or> op_eq floating_operators x y)
        \<and> \<not> (op_lt floating_operators x y \<and> op_gt floating_operators x y)
        \<and> \<not> (op_lt floating_operators x y \<and> op_eq floating_operators x y)
        \<and> \<not> (op_gt floating_operators x y \<and> op_eq floating_operators x y)
        \<and> op_ne floating_operators x y = (\<not> op_eq floating_operators x y)"
    if xy: "x \<in> S" "y \<in> S" for x y :: "'a floating"
  proof -
    obtain a b where "x = Num a" "y = Num b" using num[OF xy(1)] num[OF xy(2)] by auto
    then show ?thesis by (auto simp: floating_operators_def)
  qed
  have refl: "op_eq floating_operators x x" if "x \<in> S" for x :: "'a floating"
    using num[OF that] by (auto simp: floating_operators_def)
  show ?thesis
    unfolding ordered_on_def using pair refl by blast
qed

lemma lt_loop_char:
  "length v = N \<Longrightarrow> length other = N \<Longrightarrow> 0 < N \<Longrightarrow> i \<le> N \<Longrightarrow>
   ordered_on ops (set v \<union> set other) \<Longrightarrow>
   \<forall>j<i. op_eq ops (v ! j) (other ! j) \<Longrightarrow>
   lt_loop ops N v other i =
     Inr (\<exists>k<N. op_lt ops (v ! k) (other ! k) \<and> (\<forall>j<k. op_eq ops (v ! j) (other ! j)))"
proof (induction ops N v other i rule: lt_loop.induct)
  case (1 ops N v other i)
  let ?R = "\<exists>k<N. op_lt ops (v ! k) (other ! k) \<and> (\<forall>j<k. op_eq ops (v ! j) (other ! j))"
  have mem: "v ! k \<in> set v \<union> set other" "other ! k \<in> set v \<union> set other" if "k < N" for k
    using that 1(2,3) by simp_all
  have ord: "(op_lt ops (v ! k) (other ! k) \<or> op_gt ops (v ! k) (other ! k) \<or> op_eq ops (v ! k) (other ! k))
           \<and> \<not> (op_lt ops (v ! k) (other ! k) \<and> op_gt ops (v ! k) (other ! k))
           \<and> \<not> (op_lt ops (v ! k) (other ! k) \<and> op_eq ops (v ! k) (other ! k))
           \<and> \<not> (op_gt ops (v ! k) (other ! k) \<and> op_eq ops (v ! k) (other ! k))" if "k < N" for k
    using 1(6) mem[OF that] unfolding ordered_on_def by blast
  show ?case
  proof (cases "i < N")
    case False
    with 1(5) have iN: "i = N" by simp
    have all: "\<forall>j<N. op_eq ops (v ! j) (other ! j)" using 1(7) iN by simp
    have "\<not> ?R"
    proof
      assume ?R
      then obtain k where k: "k < N" "op_lt ops (v ! k) (other ! k)" by blast
      then show False using all ord[OF k(1)] by blast
    qed
    moreover have "op_eq ops (v ! (N - 1)) (other ! (N - 1))" using all 1(4) by simp
    ultimately show ?thesis using 1(2-4) iN
      by (subst lt_loop.simps) (simp add: at_def size_t_pred_def)
  next
    case True
    note iN = True
    consider (lt) "op_lt ops (v ! i) (other ! i)"
      | (gt) "\<not> op_lt ops (v ! i) (other ! i)" "op_gt ops (v ! i) (other ! i)"
      | (eq) "\<not> op_lt ops (v ! i) (other ! i)" "\<not> op_gt ops (v ! i) (other ! i)"
             "op_eq ops (v ! i) (other ! i)"
      using ord[OF iN] by blast
    then show ?thesis
    proof cases
      case lt
      then have ?R using iN 1(7) by blast
      moreover have "lt_loop ops N v other i = Inr True"
        using iN 1(2-3) lt by (subst lt_loop.simps) (simp add: at_def)
      ultimately show ?thesis by simp
    next
      case gt
      have "\<not> ?R"
      proof
        assume ?R
        then obtain k where k: "k < N" "op_lt ops (v ! k) (other ! k)"
            "\<forall>j<k. op_eq ops (v ! j) (other ! j)"
          by blast
        have "k \<noteq> i" using k(2) gt by auto
        moreover have "\<not> i < k" using k(3) gt ord[OF iN] by blast
        moreover have "\<not> k < i" using 1(7) k(2) ord[OF k(1)] by blast
        ultimately show False by simp
      qed
      moreover have "lt_loop ops N v other i = Inr False"
        using iN 1(2-3) gt by (subst lt_loop.simps) (simp add: at_def)
      ultimately show ?thesis by simp
    next
      case eq
      have step: "lt_loop ops N v other i = lt_loop ops N v other (Suc i)"
        using iN 1(2-3) eq by (subst lt_loop.simps) (simp add: at_def)
      have inv: "\<forall>j<Suc i. op_eq ops (v ! j) (other ! j)"
        using 1(7) eq by (simp add: less_Suc_eq)
      have "lt_loop ops N v other (Suc i) = Inr ?R"
        using 1(1)[of "v ! i" "other ! i"] inv iN 1(2-4,6) eq
        by (simp add: at_def)
      then show ?thesis using step by simp
    qed
  qed
qed

lemma eq_loop_char:
  "length v = N \<Longrightarrow> length other = N \<Longrightarrow> i \<le> N \<Longrightarrow>
   eq_loop ops N v other i = Inr (\<forall>k. i \<le> k \<and> k < N \<longrightarrow> \<not> op_ne ops (v ! k) (other ! k))"
proof (induction ops N v other i rule: eq_loop.induct)
  case (1 ops N v other i)
  show ?case
  proof (cases "i < N")
    case False
    then show ?thesis using 1(4) by (subst eq_loop.simps) auto
  next
    case True
    show ?thesis
    proof (cases "op_ne ops (v ! i) (other ! i)")
      case ne: True
      have "\<not> (\<forall>k. i \<le> k \<and> k < N \<longrightarrow> \<not> op_ne ops (v ! k) (other ! k))"
        using ne True by auto
      then show ?thesis using True 1(2-3) ne
        by (subst eq_loop.simps) (simp add: at_def)
    next
      case eq: False
      have ih: "eq_loop ops N v other (Suc i)
                = Inr (\<forall>k. Suc i \<le> k \<and> k < N \<longrightarrow> \<not> op_ne ops (v ! k) (other ! k))"
        using 1(1)[of "v ! i" "other ! i"] True 1(2-3) eq by (simp add: at_def)
      have "(\<forall>k. Suc i \<le> k \<and> k < N \<longrightarrow> \<not> op_ne ops (v ! k) (other ! k))
            \<longleftrightarrow> (\<forall>k. i \<le> k \<and> k < N \<longrightarrow> \<not> op_ne ops (v ! k) (other ! k))"
        using eq by (metis Suc_leD Suc_leI le_neq_implies_less)
      then show ?thesis using True 1(2-3) eq ih
        by (subst eq_loop.simps) (simp add: at_def)
    qed
  qed
qed

text \<open>
  Without any assumption on the operators of the element type, \<^verbatim>\<open>operator==\<close> is
  true exactly when \<^verbatim>\<open>!=\<close> is false at every index.
\<close>

lemma operator_eq_char:
  "length a = N \<Longrightarrow> length b = N \<Longrightarrow>
   operator_eq ops N a b = Inr (\<forall>k<N. \<not> op_ne ops (a ! k) (b ! k))"
  using eq_loop_char[of a N b 0 ops] by (simp add: operator_eq_def)

text \<open>
  With unordered elements the claim fails. For the one-element vector \<open>a\<close> that holds
  NaN, the loop of \<^verbatim>\<open>operator<\<close> neither returns true nor false, the test
  \<^verbatim>\<open>v[N-1] == other.v[N-1]\<close> after it is false, and the closing \<^verbatim>\<open>return true\<close> makes
  \<open>a < a\<close> true. For \<open>a = (NaN, 1)\<close> and \<open>b = (NaN, 2)\<close> the first index where the
  vectors differ is 0 (\<^verbatim>\<open>a[0] != b[0]\<close> is true) and \<^verbatim>\<open>a[0] < b[0]\<close> is false,
  yet the loop goes on to index 1 and \<open>a < b\<close> is true.
\<close>

theorem Vector_operator_lt_unordered:
  "operator_lt floating_operators 1 [NaN :: int floating] [NaN] = Inr True
   \<and> operator_lt floating_operators 2 [NaN, Num (1::int)] [NaN, Num 2] = Inr True
   \<and> op_ne floating_operators (NaN :: int floating) NaN = True
   \<and> op_lt floating_operators (NaN :: int floating) NaN = False"
  by code_simp

text \<open>
  Claim C10. For vectors \<open>a\<close> and \<open>b\<close> of dimension \<open>N > 0\<close> whose elements the
  operators of the element type order (between any two of the elements exactly one
  of \<^verbatim>\<open><\<close>, \<^verbatim>\<open>>\<close>, \<^verbatim>\<open>==\<close> holds, \<^verbatim>\<open>!=\<close> is the negation of \<^verbatim>\<open>==\<close> and every element is
  \<^verbatim>\<open>==\<close> to itself: any integers, any floating-point numbers other than NaN),
  \<^verbatim>\<open>operator<\<close> is the strict lexicographic order and agrees with \<^verbatim>\<open>operator==\<close>:
  \<open>a < a\<close> is false, \<open>a < b\<close> holds exactly when at the first index where \<open>a\<close> and
  \<open>b\<close> differ the element of \<open>a\<close> is the smaller one, and \<open>a == b\<close> holds exactly when
  all elements are pairwise equal. No array access leaves the arrays.
\<close>

theorem Vector_operator_lt_lexicographic:
  assumes "length a = N" and "length b = N" and "0 < N"
    and "ordered_on ops (set a \<union> set b)"
  shows "operator_lt ops N a a = Inr False
       \<and> operator_lt ops N a b
           = Inr (\<exists>k<N. op_lt ops (a ! k) (b ! k) \<and> (\<forall>j<k. op_eq ops (a ! j) (b ! j)))
       \<and> operator_eq ops N a b = Inr (\<forall>k<N. op_eq ops (a ! k) (b ! k))"
proof -
  have oa: "ordered_on ops (set a \<union> set a)"
    using assms(4) unfolding ordered_on_def by blast
  have refl: "op_eq ops (a ! k) (a ! k)" if "k < N" for k
    using assms(1,4) that unfolding ordered_on_def by simp
  have irrefl: "\<not> op_lt ops (a ! k) (a ! k)" if "k < N" for k
  proof -
    have "a ! k \<in> set a \<union> set b" using assms(1) that by simp
    then have "\<not> (op_lt ops (a ! k) (a ! k) \<and> op_eq ops (a ! k) (a ! k))"
      using assms(4) unfolding ordered_on_def by blast
    then show ?thesis using refl[OF that] by simp
  qed
  have ne: "op_ne ops (a ! k) (b ! k) = (\<not> op_eq ops (a ! k) (b ! k))" if "k < N" for k
  proof -
    have "a ! k \<in> set a \<union> set b" "b ! k \<in> set a \<union> set b" using assms(1,2) that by simp_all
    then show ?thesis using assms(4) unfolding ordered_on_def by blast
  qed
  have "operator_lt ops N a a
         = Inr (\<exists>k<N. op_lt ops (a ! k) (a ! k) \<and> (\<forall>j<k. op_eq ops (a ! j) (a ! j)))"
    using lt_loop_char[of a N a 0 ops] assms(1,3) oa by (simp add: operator_lt_def)
  moreover have "\<not> (\<exists>k<N. op_lt ops (a ! k) (a ! k) \<and> (\<forall>j<k. op_eq ops (a ! j) (a ! j)))"
    using irrefl by blast
  ultimately have "operator_lt ops N a a = Inr False"
    by simp
  moreover have "operator_lt ops N a b
         = Inr (\<exists>k<N. op_lt ops (a ! k) (b ! k) \<and> (\<forall>j<k. op_eq ops (a ! j) (b ! j)))"
    using lt_loop_char[of a N b 0 ops] assms by (simp add: operator_lt_def)
  moreover have "operator_eq ops N a b = Inr (\<forall>k<N. op_eq ops (a ! k) (b ! k))"
    using operator_eq_char[OF assms(1,2), of ops] ne by simp
  ultimately show ?thesis by simp
qed

theorem Vector_operator_lt_lexicographic_witness:
  "length [1, 2, 3::int] = 3 \<and> length [1, 4, 0::int] = 3 \<and> (0::nat) < 3
   \<and> operator_lt integral_operators 3 [1, 2, 3::int] [1, 2, 3] = Inr False
   \<and> operator_lt integral_operators 3 [1, 2, 3::int] [1, 4, 0] = Inr True
   \<and> operator_lt integral_operators 3 [1, 4, 0::int] [1, 2, 3] = Inr False
   \<and> operator_eq integral_operators 3 [1, 2, 3::int] [1, 4, 0] = Inr False
   \<and> operator_eq integral_operators 3 [1, 2, 3::int] [1, 2, 3] = Inr True"
proof -
  have l: "length [1, 2, 3::int] = 3" "length [1, 4, 0::int] = 3" "(0::nat) < 3" by simp_all
  have o: "ordered_on integral_operators (set [1, 2, 3::int] \<union> set [1, 4, 0])"
          "ordered_on integral_operators (set [1, 4, 0::int] \<union> set [1, 2, 3])"
          "ordered_on integral_operators (set [1, 2, 3::int] \<union> set [1, 2, 3])"
    by (rule integral_operators_ordered)+
  have w: "(\<exists>k<3. op_lt integral_operators ([1, 2, 3::int] ! k) ([1, 4, 0] ! k)
             \<and> (\<forall>j<k. op_eq integral_operators ([1, 2, 3::int] ! j) ([1, 4, 0] ! j)))"
    by (intro exI[of _ 1]) (simp add: integral_operators_def)
  have w2: "\<not> (\<exists>k<3. op_lt integral_operators ([1, 4, 0::int] ! k) ([1, 2, 3] ! k)
             \<and> (\<forall>j<k. op_eq integral_operators ([1, 4, 0::int] ! j) ([1, 2, 3] ! j)))"
    by (auto simp: less_Suc_eq numeral_3_eq_3 integral_operators_def)
  have w3: "\<not> (\<forall>k<3. op_eq integral_operators ([1, 2, 3::int] ! k) ([1, 4, 0] ! k))"
    by (auto intro: exI[of _ 1] simp: integral_operators_def)
  have w4: "\<forall>k<3. op_eq integral_operators ([1, 2, 3::int] ! k) ([1, 2, 3] ! k)"
    by (simp add: integral_operators_def)
  show ?thesis
    using Vector_operator_lt_lexicographic[OF l(1) l(2) l(3) o(1)]
          Vector_operator_lt_lexicographic[OF l(2) l(1) l(3) o(2)]
          Vector_operator_lt_lexicographic[OF l(1) l(1) l(3) o(3)] w w2 w3 w4
    by simp
qed

lemma Stack_new_inv:
  "length uninit = N \<Longrightarrow> Stack_inv N (Stack_new uninit) \<and> size_Stack (Stack_new uninit) = 0"
  by (simp add: Stack_inv_def Stack_new_def size_Stack_def)

lemma push_preserves_inv: "Stack_inv N s \<Longrightarrow> push N s v = Inr s' \<Longrightarrow> Stack_inv N s'"
  by (auto simp: Stack_inv_def push_def split: if_splits)

lemma pop_preserves_inv: "Stack_inv N s \<Longrightarrow> pop s = Inr (x, s') \<Longrightarrow> Stack_inv N s'"
  by (auto simp: Stack_inv_def pop_def at_def split: if_splits)

text \<open>
  Claim C9. On a stack that satisfies the class invariant (the array has its \<open>N\<close>
  elements and \<open>n \<le> N\<close>, which the constructor establishes and \<^verbatim>\<open>push\<close> and \<^verbatim>\<open>pop\<close>
  keep): no access of \<^verbatim>\<open>push\<close> or \<^verbatim>\<open>pop\<close> leaves the array; when \<open>n < N\<close>, \<^verbatim>\<open>push\<close>
  succeeds and increases the size by one, and a \<^verbatim>\<open>pop\<close> right after it returns the
  pushed value, restores the size and leaves the elements below untouched; when
  \<open>n > 0\<close>, \<^verbatim>\<open>pop\<close> returns the top element and decreases the size by one.
\<close>

theorem Stack_push_pop_discipline:
  assumes "Stack_inv N s"
  shows "push N s v \<noteq> Inl OutOfBounds \<and> pop s \<noteq> Inl OutOfBounds
    \<and> (stk_n s < N \<longrightarrow>
          (\<exists>s' s''. push N s v = Inr s' \<and> Stack_inv N s' \<and> size_Stack s' = size_Stack s + 1
             \<and> pop s' = Inr (v, s'') \<and> Stack_inv N s'' \<and> size_Stack s'' = size_Stack s
             \<and> (\<forall>i<stk_n s. stk_t s'' ! i = stk_t s ! i)))
    \<and> (0 < stk_n s \<longrightarrow>
          (\<exists>s'. pop s = Inr (stk_t s ! (stk_n s - 1), s') \<and> Stack_inv N s'
             \<and> size_Stack s' + 1 = size_Stack s))"
proof -
  have len: "length (stk_t s) = N" and le: "stk_n s \<le> N"
    using assms by (simp_all add: Stack_inv_def)
  have a: "push N s v \<noteq> Inl OutOfBounds"
    using len by (simp add: push_def)
  have b: "pop s \<noteq> Inl OutOfBounds"
    using len le by (auto simp: pop_def at_def)
  have c: "\<exists>s' s''. push N s v = Inr s' \<and> Stack_inv N s' \<and> size_Stack s' = size_Stack s + 1
             \<and> pop s' = Inr (v, s'') \<and> Stack_inv N s'' \<and> size_Stack s'' = size_Stack s
             \<and> (\<forall>i<stk_n s. stk_t s'' ! i = stk_t s ! i)" if lt: "stk_n s < N"
  proof -
    let ?s' = "s\<lparr>stk_t := (stk_t s)[stk_n s := v], stk_n := stk_n s + 1\<rparr>"
    let ?s'' = "?s'\<lparr>stk_n := stk_n s\<rparr>"
    have 1: "push N s v = Inr ?s'" using lt len by (simp add: push_def)
    have 2: "Stack_inv N ?s'" using lt len by (simp add: Stack_inv_def)
    have 3: "size_Stack ?s' = size_Stack s + 1" by (simp add: size_Stack_def)
    have 4: "pop ?s' = Inr (v, ?s'')" using lt len by (simp add: pop_def at_def)
    have 5: "Stack_inv N ?s''" using lt len by (simp add: Stack_inv_def)
    have 6: "size_Stack ?s'' = size_Stack s" by (simp add: size_Stack_def)
    have 7: "\<forall>i<stk_n s. stk_t ?s'' ! i = stk_t s ! i" by simp
    from 1 2 3 4 5 6 7 show ?thesis by blast
  qed
  have d: "\<exists>s'. pop s = Inr (stk_t s ! (stk_n s - 1), s') \<and> Stack_inv N s'
             \<and> size_Stack s' + 1 = size_Stack s" if gt: "0 < stk_n s"
  proof -
    let ?s' = "s\<lparr>stk_n := stk_n s - 1\<rparr>"
    have 1: "pop s = Inr (stk_t s ! (stk_n s - 1), ?s')"
      using gt len le by (simp add: pop_def at_def)
    have 2: "Stack_inv N ?s'" using len le by (simp add: Stack_inv_def)
    have 3: "size_Stack ?s' + 1 = size_Stack s" using gt by (simp add: size_Stack_def)
    from 1 2 3 show ?thesis by blast
  qed
  from a b c d show ?thesis by blast
qed

theorem Stack_push_pop_discipline_witness:
  "Stack_inv 3 \<lparr>stk_t = [7, 0, 0::int], stk_n = 1\<rparr>
   \<and> push 3 \<lparr>stk_t = [7, 0, 0::int], stk_n = 1\<rparr> 9 = Inr \<lparr>stk_t = [7, 9, 0], stk_n = 2\<rparr>
   \<and> pop \<lparr>stk_t = [7, 9, 0::int], stk_n = 2\<rparr> = Inr (9, \<lparr>stk_t = [7, 9, 0], stk_n = 1\<rparr>)
   \<and> pop \<lparr>stk_t = [7, 0, 0::int], stk_n = 1\<rparr> = Inr (7, \<lparr>stk_t = [7, 0, 0], stk_n = 0\<rparr>)"
proof -
  have inv: "Stack_inv 3 \<lparr>stk_t = [7, 0, 0::int], stk_n = 1\<rparr>"
    by (simp add: Stack_inv_def)
  show ?thesis
    using inv Stack_push_pop_discipline[OF inv, of 9]
    by (simp add: push_def pop_def at_def)
qed

section \<open>Properties of the file archives\<close>

lemma takeWhile_c_str: "takeWhile (\<lambda>c. c \<noteq> NUL) (lit @ [NUL]) = takeWhile (\<lambda>c. c \<noteq> NUL) lit"
  by (induction lit) simp_all

lemma strlen_c_str_le: "strlen (c_str lit) \<le> length lit"
  unfolding strlen_def c_str_def takeWhile_c_str by (rule length_takeWhile_le)


lemma c_str_at_strlen: "c_str lit ! strlen (c_str lit) = NUL"
proof -
  have "strlen (c_str lit) < length (c_str lit)"
    using strlen_c_str_le[of lit] by (simp add: c_str_def)
  then have "\<not> (c_str lit ! strlen (c_str lit) \<noteq> NUL)"
    unfolding strlen_def by (rule nth_length_takeWhile)
  then show ?thesis by simp
qed

lemma strncmp_agree:
  "k \<le> length s1 \<Longrightarrow> k \<le> length s2 \<Longrightarrow> \<forall>j<k. s1 ! j = s2 ! j \<Longrightarrow> strncmp s1 s2 k = Inr 0"
proof (induction s1 s2 k rule: strncmp.induct)
  case (2 c1 s1 c2 s2 k)
  have "c1 = c2" using 2(4) by auto
  moreover have "\<forall>j<k. s1 ! j = s2 ! j" using 2(4) by auto
  ultimately show ?case using 2 by simp
qed simp_all



lemma write_image:
  assumes "os_file os = Some f"
  shows "os_file (snd (ofstream_write fs os bs)) = Some f
       \<and> stream_image (fst (ofstream_write fs os bs)) (snd (ofstream_write fs os bs)) f
           = stream_image fs os f @ bs"
proof -
  define out where "out = os_pending os @ bs"
  define k where "k = os_through os (length (os_pending os)) (length bs)"
  define c where "c = (case files fs f of None \<Rightarrow> [] | Some c \<Rightarrow> c)"
  have w: "ofstream_write fs os bs
           = (append_file fs f (take k out), os\<lparr>os_pending := drop k out\<rparr>)"
    using assms by (simp add: ofstream_write_def Let_def out_def k_def)
  have "stream_image (append_file fs f (take k out)) (os\<lparr>os_pending := drop k out\<rparr>) f
        = c @ (take k out @ drop k out)"
    by (simp add: stream_image_def append_file_def c_def)
  also have "\<dots> = c @ out" unfolding append_take_drop_id ..
  also have "\<dots> = stream_image fs os f @ bs"
    by (simp add: stream_image_def c_def out_def)
  finally show ?thesis unfolding w using assms by simp
qed

lemma store_all_image:
  "os_file os = Some f \<Longrightarrow>
   os_file (snd (store_all (fs, os) bss)) = Some f
   \<and> stream_image (fst (store_all (fs, os) bss)) (snd (store_all (fs, os) bss)) f
       = stream_image fs os f @ concat bss"
proof (induction bss arbitrary: fs os)
  case Nil
  then show ?case by simp
next
  case (Cons bs bss)
  obtain fs' os' where w: "ofstream_write fs os bs = (fs', os')"
    by (cases "ofstream_write fs os bs")
  have i: "os_file os' = Some f" "stream_image fs' os' f = stream_image fs os f @ bs"
    using write_image[OF Cons.prems, of fs bs] w by simp_all
  show ?case
    using Cons.IH[OF i(1), of fs'] i(2) w
    by (simp add: BinaryFstreamOutputArchive_store_def)
qed

lemma open_image:
  assumes "writable fs filename"
  shows "os_file (snd (BinaryFstreamOutputArchive_open through cookie fs filename)) = Some filename
       \<and> stream_image (fst (BinaryFstreamOutputArchive_open through cookie fs filename))
                      (snd (BinaryFstreamOutputArchive_open through cookie fs filename)) filename
           = take (strlen (c_str cookie) + 1) (c_str cookie)"
proof -
  let ?hdr = "take (strlen (c_str cookie) + 1) (c_str cookie)"
  let ?fs1 = "fs\<lparr>files := (files fs)(filename \<mapsto> [])\<rparr>"
  let ?os1 = "\<lparr>os_file = Some filename, os_pending = [], os_through = through\<rparr>"
  have op: "BinaryFstreamOutputArchive_open through cookie fs filename = ofstream_write ?fs1 ?os1 ?hdr"
    using assms
    by (simp add: BinaryFstreamOutputArchive_open_def ofstream_open_def
        BinaryFstreamOutputArchive_store_def)
  have "stream_image ?fs1 ?os1 filename = []" by (simp add: stream_image_def)
  then show ?thesis
    unfolding op using write_image[of ?os1 filename ?fs1 ?hdr] by simp
qed

lemma flush_image:
  "os_file os = Some f \<Longrightarrow> files (fst (ofstream_flush fs os)) f = Some (stream_image fs os f)"
  by (simp add: ofstream_flush_def append_file_def stream_image_def)

lemma written_image:
  assumes "writable fs filename"
  shows "os_file (snd (store_all (BinaryFstreamOutputArchive_open through cookie fs filename) bss))
           = Some filename
       \<and> stream_image
           (fst (store_all (BinaryFstreamOutputArchive_open through cookie fs filename) bss))
           (snd (store_all (BinaryFstreamOutputArchive_open through cookie fs filename) bss)) filename
           = take (strlen (c_str cookie) + 1) (c_str cookie) @ concat bss"
proof -
  obtain fs1 os1 where op: "BinaryFstreamOutputArchive_open through cookie fs filename = (fs1, os1)"
    by (cases "BinaryFstreamOutputArchive_open through cookie fs filename")
  have i: "os_file os1 = Some filename"
          "stream_image fs1 os1 filename = take (strlen (c_str cookie) + 1) (c_str cookie)"
    using open_image[OF assms, of through cookie] op by simp_all
  show ?thesis
    unfolding op using store_all_image[OF i(1), of fs1 bss] i(2) by simp
qed

text \<open>After \<^verbatim>\<open>close\<close>, and after \<^verbatim>\<open>flush\<close>, the file holds the cookie and all the bytes stored.\<close>

lemma written_file:
  assumes "writable fs filename"
  shows "files (fst (case store_all (BinaryFstreamOutputArchive_open through cookie fs filename) bss of
                       (fs', os) \<Rightarrow> BinaryFstreamOutputArchive_close fs' os)) filename
         = Some (take (strlen (c_str cookie) + 1) (c_str cookie) @ concat bss)"
  using written_image[OF assms, of through cookie bss]
        flush_image[of "snd (store_all (BinaryFstreamOutputArchive_open through cookie fs filename) bss)"
                       filename
                       "fst (store_all (BinaryFstreamOutputArchive_open through cookie fs filename) bss)"]
  by (simp add: BinaryFstreamOutputArchive_close_def ofstream_close_def case_prod_beta)


text \<open>
  With the policy of libstdc++, a store of 1024 bytes or more is in the file right
  after the store, with everything stored before it.
\<close>

lemma large_store_written_through:
  assumes "os_file os = Some f" and "os_through os = libstdcxx_through"
    and "1024 \<le> length bs"
  shows "os_pending (snd (BinaryFstreamOutputArchive_store fs os bs)) = []
       \<and> files (fst (BinaryFstreamOutputArchive_store fs os bs)) f
           = Some (stream_image fs os f @ bs)"
proof -
  have "min 1024 (8191 - length (os_pending os)) \<le> length bs"
    using assms(3) by simp
  then have "os_through os (length (os_pending os)) (length bs)
             = length (os_pending os) + length bs"
    using assms(2) by (simp add: libstdcxx_through_def)
  then show ?thesis
    using assms(1)
    by (simp add: BinaryFstreamOutputArchive_store_def ofstream_write_def
        append_file_def stream_image_def Let_def)
qed

lemma read_header:
  assumes "length hdr = k" and "k \<le> length uninit"
  shows "ifstream_read \<lparr>is_content = hdr @ rest, is_pos = 0, is_fail = False\<rparr> uninit k
         = (hdr @ drop k uninit, \<lparr>is_content = hdr @ rest, is_pos = k, is_fail = False\<rparr>)"
  using assms by (simp add: ifstream_read_def)

lemma open_match:
  assumes len: "strlen (c_str cookie) + 1 \<le> length uninit"
    and fl: "files fs filename = Some (take (strlen (c_str cookie) + 1) (c_str cookie) @ rest)"
  shows "BinaryFstreamInputArchive_open cookie fs filename uninit =
         Inr \<lparr>is_content = take (strlen (c_str cookie) + 1) (c_str cookie) @ rest,
              is_pos = strlen (c_str cookie) + 1, is_fail = False\<rparr>"
proof -
  let ?A = "c_str cookie"
  let ?k = "strlen ?A + 1"
  let ?hdr = "take ?k ?A"
  have lA: "?k \<le> length ?A"
    using strlen_c_str_le[of cookie] by (simp add: c_str_def)
  have lh: "length ?hdr = ?k" using lA by simp
  have lbuf: "?k \<le> length (?hdr @ drop ?k uninit)" using lh by simp
  have "\<forall>j<?k. (?hdr @ drop ?k uninit) ! j = ?A ! j"
    using lh by (simp add: nth_append)
  then have cmp: "strncmp (?hdr @ drop ?k uninit) ?A ?k = Inr 0"
    using strncmp_agree[OF lbuf lA] by blast
  have opn: "ifstream_open fs filename = \<lparr>is_content = ?hdr @ rest, is_pos = 0, is_fail = False\<rparr>"
    unfolding ifstream_open_def fl by simp
  have nl: "\<not> length uninit < ?k" using len by simp
  show ?thesis
    unfolding BinaryFstreamInputArchive_open_def BinaryFstreamInputArchive_load_def Let_def
      opn read_header[OF lh len] prod.case cmp if_not_P[OF nl]
    by simp
qed




text \<open>
  The archives themselves: bytes stored through an output archive and loaded through
  an input archive on the same file, once the output archive is closed, come back
  unchanged.
\<close>

lemma archive_store_load_roundtrip:
  assumes w: "writable fs filename"
    and len: "strlen (c_str cookie) + 1 \<le> length uninit"
    and buf: "length bs \<le> length buf"
  shows "\<exists>is. BinaryFstreamInputArchive_open cookie
                (fst (case store_all (BinaryFstreamOutputArchive_open through cookie fs filename) [bs] of
                        (fs', os) \<Rightarrow> BinaryFstreamOutputArchive_close fs' os))
                filename uninit = Inr is
            \<and> fst (BinaryFstreamInputArchive_load is buf (length bs)) = bs @ drop (length bs) buf"
proof -
  let ?hdr = "take (strlen (c_str cookie) + 1) (c_str cookie)"
  let ?k = "strlen (c_str cookie) + 1"
  let ?fs' = "fst (case store_all (BinaryFstreamOutputArchive_open through cookie fs filename) [bs] of
                        (fs', os) \<Rightarrow> BinaryFstreamOutputArchive_close fs' os)"
  have lh: "length ?hdr = ?k"
    using strlen_c_str_le[of cookie] by (simp add: c_str_def)
  have wf: "files ?fs' filename = Some (?hdr @ bs)"
    using written_file[OF w, of through cookie "[bs]"] by simp
  have op: "BinaryFstreamInputArchive_open cookie ?fs' filename uninit =
        Inr \<lparr>is_content = ?hdr @ bs, is_pos = ?k, is_fail = False\<rparr>"
    by (rule open_match[OF len wf])
  have "take (length bs) (drop ?k (?hdr @ bs)) = bs" using lh by simp
  then have rd: "fst (BinaryFstreamInputArchive_load
                  \<lparr>is_content = ?hdr @ bs, is_pos = ?k, is_fail = False\<rparr> buf (length bs))
             = bs @ drop (length bs) buf"
    by (simp add: BinaryFstreamInputArchive_load_def ifstream_read_def Let_def)
  show ?thesis using op rd by simp
qed

section \<open>Properties of the partitioner\<close>

lemma chunks_bounds:
  "(x, y) \<in> set (chunks b L g) \<Longrightarrow> b \<le> x \<and> x < y \<and> y \<le> L"
proof (induction b L g rule: chunks.induct)
  case (1 b L g)
  show ?case
  proof (cases "b < L \<and> 0 < g")
    case False
    then have "chunks b L g = []" by (subst chunks.simps) simp
    with 1(2) show ?thesis by simp
  next
    case True
    then have eq: "chunks b L g = (b, min (b + g) L) # chunks (min (b + g) L) L g"
      by (subst chunks.simps) simp
    from 1(2) eq consider "(x, y) = (b, min (b + g) L)" | "(x, y) \<in> set (chunks (min (b + g) L) L g)"
      by auto
    then show ?thesis
    proof cases
      case 1
      then show ?thesis using True by auto
    next
      case 2
      then have "min (b + g) L \<le> x \<and> x < y \<and> y \<le> L" using "1.IH"[OF True] by simp
      then show ?thesis using True by auto
    qed
  qed
qed

lemma chunks_cover:
  "0 < g \<Longrightarrow> (\<Union>(x, y) \<in> set (chunks b L g). {x..<y}) = {b..<L}"
proof (induction b L g rule: chunks.induct)
  case (1 b L g)
  show ?case
  proof (cases "b < L")
    case False
    then have "chunks b L g = []" by (subst chunks.simps) simp
    then show ?thesis using False by simp
  next
    case True
    then have eq: "chunks b L g = (b, min (b + g) L) # chunks (min (b + g) L) L g"
      using 1(2) by (subst chunks.simps) simp
    have ih: "(\<Union>(x, y) \<in> set (chunks (min (b + g) L) L g). {x..<y}) = {min (b + g) L..<L}"
      using "1.IH" True 1(2) by simp
    have "{b..<min (b + g) L} \<union> {min (b + g) L..<L} = {b..<L}"
      using True by auto
    then show ?thesis unfolding eq using ih by simp
  qed
qed

lemma chunks_disjoint:
  "i < j \<Longrightarrow> j < length (chunks b L g) \<Longrightarrow>
   snd (chunks b L g ! i) \<le> fst (chunks b L g ! j)"
proof (induction b L g arbitrary: i j rule: chunks.induct)
  case (1 b L g)
  show ?case
  proof (cases "b < L \<and> 0 < g")
    case False
    then have "chunks b L g = []" by (subst chunks.simps) simp
    with 1(3) show ?thesis by simp
  next
    case True
    then have eq: "chunks b L g = (b, min (b + g) L) # chunks (min (b + g) L) L g"
      by (subst chunks.simps) simp
    let ?t = "chunks (min (b + g) L) L g"
    obtain j' where j': "j = Suc j'" using 1(2) by (cases j) auto
    have jl: "j' < length ?t" using 1(3) eq j' by simp
    show ?thesis
    proof (cases i)
      case 0
      have "?t ! j' \<in> set ?t" using jl by simp
      then have "min (b + g) L \<le> fst (?t ! j')"
        using chunks_bounds[of "fst (?t ! j')" "snd (?t ! j')" "min (b + g) L" L g] by simp
      then show ?thesis using 0 j' eq by simp
    next
      case (Suc i')
      then have "i' < j'" using 1(2) j' by simp
      then have "snd (?t ! i') \<le> fst (?t ! j')" using "1.IH"[OF True _ jl] by simp
      then show ?thesis using Suc j' eq by simp
    qed
  qed
qed

lemma do_1d_partition_cover:
  "0 < g \<Longrightarrow> (\<Union>(x, y) \<in> set (do_1d_partition L g). {x..<y}) = {0..<L}"
  by (simp add: do_1d_partition_def chunks_cover)

lemma do_1d_partition_disjoint:
  assumes "i < j" and "j < length (do_1d_partition L g)"
  shows "snd (do_1d_partition L g ! i) \<le> fst (do_1d_partition L g ! j)"
proof (cases "L \<le> g")
  case True
  then show ?thesis using assms by (simp add: do_1d_partition_def)
next
  case False
  then show ?thesis using assms chunks_disjoint[of i j 0 L g]
    by (simp add: do_1d_partition_def)
qed

lemma do_1d_partition_20_5: "do_1d_partition 20 5 = [(0, 5), (5, 10), (10, 15), (15, 20)]"
  by code_simp

lemma do_1d_partition_single: "L \<le> g \<Longrightarrow> do_1d_partition L g = [(0, L)]"
  by (simp add: do_1d_partition_def)

lemma do_1d_partition_sizes:
  "L > g \<Longrightarrow> (x, y) \<in> set (do_1d_partition L g) \<Longrightarrow> x < y \<and> y \<le> L"
  using chunks_bounds[of x y 0 L g] by (simp add: do_1d_partition_def)

lemma partition_tasks_1d:
  assumes "dimension p = 1" and "vector_sizes argtuple = L # Ls"
  shows "partition_tasks p argtuple =
         Inr (map (\<lambda>(b, e). \<lparr>b_input = [Span b e], b_result = Span b e\<rparr>)
                  (do_1d_partition L (granularity p)))"
  using assms by (simp add: partition_tasks_def)

text \<open>
  Claim C7. For a partitioner configured for one dimension with a granularity
  \<open>g > 0\<close>, and an argument tuple whose first collection has length \<open>L\<close>: the
  partitioner returns batches whose output ranges have the union \<open>{0..<L}\<close> and are
  pairwise disjoint; for \<open>L = 20\<close> and \<open>g = 5\<close> the output ranges are
  \<open>[0,5)\<close>, \<open>[5,10)\<close>, \<open>[10,15)\<close>, \<open>[15,20)\<close>.
\<close>

theorem partition_coverage:
  assumes "0 < granularity p" and "dimension p = 1" and "vector_sizes argtuple = L # Ls"
  shows "\<exists>bs. partition_tasks p argtuple = Inr bs
       \<and> (\<Union>b \<in> set bs. range_indices L (b_result b)) = {0..<L}
       \<and> (\<forall>i j. i < j \<and> j < length bs \<longrightarrow>
             range_indices L (b_result (bs ! i)) \<inter> range_indices L (b_result (bs ! j)) = {})
       \<and> (L = 20 \<and> granularity p = 5 \<longrightarrow>
             map b_result bs = [Span 0 5, Span 5 10, Span 10 15, Span 15 20])"
proof -
  let ?d = "do_1d_partition L (granularity p)"
  let ?f = "\<lambda>(b, e). \<lparr>b_input = [Span b e], b_result = Span b e\<rparr>"
  let ?bs = "map ?f ?d"
  have ri: "range_indices L (b_result (?f x)) = {fst x..<snd x}" for x
    by (cases x) (simp add: range_indices_def)
  have 1: "partition_tasks p argtuple = Inr ?bs"
    using partition_tasks_1d[OF assms(2,3)] .
  have "(\<Union>b \<in> set ?bs. range_indices L (b_result b)) = (\<Union>x \<in> set ?d. {fst x..<snd x})"
    using ri by simp
  also have "\<dots> = (\<Union>(x, y) \<in> set ?d. {x..<y})"
    by (simp add: case_prod_beta)
  also have "\<dots> = {0..<L}"
    using do_1d_partition_cover[OF assms(1)] .
  finally have 2: "(\<Union>b \<in> set ?bs. range_indices L (b_result b)) = {0..<L}" .
  have 3: "range_indices L (b_result (?bs ! i)) \<inter> range_indices L (b_result (?bs ! j)) = {}"
    if "i < j \<and> j < length ?bs" for i j
  proof -
    have ij: "i < j" "j < length ?d" "i < length ?d" using that by simp_all
    have "snd (?d ! i) \<le> fst (?d ! j)"
      using do_1d_partition_disjoint[OF ij(1,2)] .
    then have "{fst (?d ! i)..<snd (?d ! i)} \<inter> {fst (?d ! j)..<snd (?d ! j)} = {}"
      by auto
    then show ?thesis using ij ri by simp
  qed
  have 4: "map b_result ?bs = [Span 0 5, Span 5 10, Span 10 15, Span 15 20]"
    if "L = 20 \<and> granularity p = 5"
    using that do_1d_partition_20_5 by simp
  show ?thesis
  proof (intro exI[of _ ?bs] conjI allI impI)
    show "partition_tasks p argtuple = Inr ?bs" by (rule 1)
    show "(\<Union>b \<in> set ?bs. range_indices L (b_result b)) = {0..<L}" by (rule 2)
    show "range_indices L (b_result (?bs ! i)) \<inter> range_indices L (b_result (?bs ! j)) = {}"
      if "i < j \<and> j < length ?bs" for i j by (rule 3[OF that])
    show "map b_result ?bs = [Span 0 5, Span 5 10, Span 10 15, Span 15 20]"
      if "L = 20 \<and> granularity p = 5" by (rule 4[OF that])
  qed
qed


theorem partition_coverage_witness:
  "0 < granularity \<lparr>granularity = 5, dimension = 1, nsubworld = 1\<rparr>
   \<and> dimension \<lparr>granularity = 5, dimension = 1, nsubworld = 1\<rparr> = 1
   \<and> vector_sizes [Scalar (2::int), FnVec (replicate 20 (0::int))] = [20]
   \<and> (\<exists>bs. partition_tasks \<lparr>granularity = 5, dimension = 1, nsubworld = 1\<rparr>
               [Scalar (2::int), FnVec (replicate 20 (0::int))] = Inr bs
          \<and> map b_result bs = [Span 0 5, Span 5 10, Span 10 15, Span 15 20])"
proof -
  have h: "0 < granularity \<lparr>granularity = 5, dimension = 1, nsubworld = 1\<rparr>"
    "dimension \<lparr>granularity = 5, dimension = 1, nsubworld = 1\<rparr> = 1"
    "vector_sizes [Scalar (2::int), FnVec (replicate 20 (0::int))] = [20]"
    by simp_all
  from partition_coverage[OF h] obtain bs
    where a: "partition_tasks \<lparr>granularity = 5, dimension = 1, nsubworld = 1\<rparr>
               [Scalar (2::int), FnVec (replicate 20 (0::int))] = Inr bs"
      and b: "(20::nat) = 20 \<and> granularity \<lparr>granularity = 5, dimension = 1, nsubworld = 1\<rparr> = 5 \<longrightarrow>
               map b_result bs = [Span 0 5, Span 5 10, Span 10 15, Span 15 20]"
    by (elim exE conjE)
  have c: "map b_result bs = [Span 0 5, Span 5 10, Span 10 15, Span 15 20]"
    using b by simp
  show ?thesis
    by (intro conjI exI[of _ bs]) (rule h a c)+
qed

section \<open>Properties of the distributed store\<close>

lemma find_record_Some:
  "find_record x c = Some i \<Longrightarrow> i < length c \<and> c ! i = x \<and> (\<forall>j<i. c ! j \<noteq> x)"
proof (induction c arbitrary: i)
  case Nil
  then show ?case by simp
next
  case (Cons y ys)
  show ?case
  proof (cases "x = y")
    case True
    then show ?thesis using Cons.prems by simp
  next
    case False
    then obtain i' where i': "find_record x ys = Some i'" "i = Suc i'"
      using Cons.prems by auto
    have "i' < length ys \<and> ys ! i' = x \<and> (\<forall>j<i'. ys ! j \<noteq> x)"
      using Cons.IH[OF i'(1)] .
    then show ?thesis using i'(2) False by (auto simp: less_Suc_eq_0_disj)
  qed
qed

lemma find_record_None: "find_record x c = None \<longleftrightarrow> x \<notin> set c"
  by (induction c) auto

lemma find_record_append_new:
  "x \<notin> set c \<Longrightarrow> find_record x (c @ [x]) = Some (length c)"
  by (induction c) auto

lemma find_record_append_old:
  "find_record x c = Some i \<Longrightarrow> find_record x (c @ c') = Some i"
  by (induction c arbitrary: i) auto

lemma store_hit: "find_record x c = Some i \<Longrightarrow> store x c = (i, c)"
  by (simp add: store_def)

lemma store_miss: "x \<notin> set c \<Longrightarrow> store x c = (length c, c @ [x])"
  using find_record_None[of x c] by (simp add: store_def)

lemma store_again: "store x (snd (store x c)) = store x c"
proof (cases "find_record x c")
  case None
  then have "x \<notin> set c" by (simp add: find_record_None)
  then show ?thesis
    using None by (simp add: store_def find_record_append_new)
next
  case (Some k)
  then show ?thesis by (simp add: store_def)
qed

lemma load_store: "load (fst (store x c)) (snd (store x c)) = Inr x"
proof (cases "find_record x c")
  case None
  then show ?thesis by (simp add: store_def load_def)
next
  case (Some k)
  then show ?thesis using find_record_Some[OF Some] by (simp add: store_def load_def)
qed

lemma store_extends: "\<exists>c'. snd (store x c) = c @ c'"
  by (cases "find_record x c") (simp_all add: store_def)

lemma load_extends: "load i c = Inr x \<Longrightarrow> load i (c @ c') = Inr x"
  by (auto simp: load_def nth_append split: if_splits)

text \<open>
  Claim C4. Storing a payload a second time in the same epoch returns the record id
  of the first time and leaves the store as it is, and loading the id that \<^verbatim>\<open>store\<close>
  returned gives the payload back.
\<close>

theorem store_idempotent_load_inverse:
  "fst (store x (snd (store x c))) = fst (store x c)
   \<and> snd (store x (snd (store x c))) = snd (store x c)
   \<and> load (fst (store x c)) (snd (store x c)) = Inr x"
  by (simp add: store_again load_store)

section \<open>Properties of the macro task front end\<close>

lemma call_deferred:
  assumes "taskq_ptr mt = Some qp" and "qp < length (queues u)"
  shows "MacroTask_2G_call P mt args u =
         (case submit P (mt_world mt) (mt_task mt) args (queues u ! qp) (impls u) of
            Inl e \<Rightarrow> Inl e
          | Inr (result, tsk, q2, h2) \<Rightarrow>
              Inr (result, mt\<lparr>taskq_ptr := Some qp, mt_task := tsk\<rparr>,
                   u\<lparr>impls := h2, queues := (queues u)[qp := q2]\<rparr>))"
  using assms unfolding MacroTask_2G_call_def submit_def
  by (simp add: Let_def split: sum.split prod.split)

lemma call_immediate:
  fixes mt :: "('s, 'f::plus) MacroTask_2G"
  assumes "taskq_ptr mt = None"
  shows "MacroTask_2G_call P mt args u =
         (case submit P (mt_world mt) (mt_task mt) args (MacroTaskQ_new (mt_world mt) (world_size (mt_world mt))) (impls u) of
            Inl e \<Rightarrow> Inl e
          | Inr (result, tsk, q2, h2) \<Rightarrow>
              (case run_all_loop q2 h2 of
                 Inl e \<Rightarrow> Inl e
               | Inr (q3, h3) \<Rightarrow>
                   Inr (result, mt\<lparr>taskq_ptr := Some (length (queues u)), mt_task := tsk\<rparr>,
                        u\<lparr>impls := h3, queues := queues u @ [q3]\<rparr>)))"
proof -
  let ?part = "set_nsubworld (world_size (mt_world mt))
                   (case partitioner (mt_task mt) of None \<Rightarrow> P | Some p \<Rightarrow> p)"
  let ?tsk = "case partitioner (mt_task mt) of
                   None \<Rightarrow> mt_task mt
                 | Some _ \<Rightarrow> (mt_task mt)\<lparr>partitioner := Some ?part\<rparr>"
  let ?Q = "MacroTaskQ_new (mt_world mt) (world_size (mt_world mt)) :: ('s, 'f) MacroTaskQ"
  show ?thesis
  proof (cases "partition_tasks ?part args")
    case (Inl e)
    then show ?thesis using assms
      unfolding MacroTask_2G_call_def submit_def by (simp add: Let_def)
  next
    case (Inr batches)
    obtain inputrecords c1 where st: "store_argtuple args (cloud ?Q) = (inputrecords, c1)"
      by (cases "store_argtuple args (cloud ?Q)")
    obtain outputrecords result c2 h2
      where po: "prepare_output ?tsk c1 (impls u) args = (outputrecords, result, c2, h2)"
      by (cases "prepare_output ?tsk c1 (impls u) args")
    show ?thesis
      using assms Inr st po
      unfolding MacroTask_2G_call_def submit_def run_all_def
      by (simp add: Let_def split: sum.split prod.split)
  qed
qed

text \<open>
  Claim C1. For every task, argument tuple and universe, \<^verbatim>\<open>test_immediate\<close> (a
  \<^verbatim>\<open>MacroTask_2G\<close> constructed without a queue and called once) and \<^verbatim>\<open>test_deferred\<close>
  (the same task called with a fresh queue, followed by \<^verbatim>\<open>run_all\<close>) give the same
  outcome: the same value of the result, or the same error. Equal values are equal
  within every tolerance.
\<close>

theorem immediate_equals_deferred:
  fixes u :: "('s, 'f::plus) universe"
  shows "test_immediate new_partitioner w t args u = test_deferred new_partitioner w t args u"
proof -
  let ?Q = "MacroTaskQ_new w (world_size w) :: ('s, 'f) MacroTaskQ"
  let ?qp = "length (queues u)"
  let ?u1 = "u\<lparr>queues := queues u @ [?Q]\<rparr>"
  let ?mt0 = "\<lparr>mt_world = w, mt_task = t, taskq_ptr = None\<rparr> :: ('s, 'f) MacroTask_2G"
  let ?mtd = "\<lparr>mt_world = w, mt_task = t, taskq_ptr = Some ?qp\<rparr> :: ('s, 'f) MacroTask_2G"
  have new0: "MacroTask_2G_new w t None u = Inr ?mt0"
    by (simp add: MacroTask_2G_new_def)
  have newd: "MacroTask_2G_new w t (Some ?qp) ?u1 = Inr ?mtd"
    by (simp add: MacroTask_2G_new_def MacroTaskQ_new_def)
  have imm: "MacroTask_2G_call new_partitioner ?mt0 args u =
      (case submit new_partitioner w t args ?Q (impls u) of
            Inl e \<Rightarrow> Inl e
          | Inr (result, tsk, q2, h2) \<Rightarrow>
              (case run_all_loop q2 h2 of
                 Inl e \<Rightarrow> Inl e
               | Inr (q3, h3) \<Rightarrow>
                   Inr (result, ?mt0\<lparr>taskq_ptr := Some ?qp, mt_task := tsk\<rparr>,
                        u\<lparr>impls := h3, queues := queues u @ [q3]\<rparr>)))"
    using call_immediate[of ?mt0 new_partitioner args u] by simp
  have def: "MacroTask_2G_call new_partitioner ?mtd args ?u1 =
      (case submit new_partitioner w t args ?Q (impls u) of
            Inl e \<Rightarrow> Inl e
          | Inr (result, tsk, q2, h2) \<Rightarrow>
              Inr (result, ?mtd\<lparr>taskq_ptr := Some ?qp, mt_task := tsk\<rparr>,
                   ?u1\<lparr>impls := h2, queues := (queues ?u1)[?qp := q2]\<rparr>))"
    using call_deferred[of ?mtd ?qp ?u1 new_partitioner args] by simp
  show ?thesis
  proof (cases "submit new_partitioner w t args ?Q (impls u)")
    case (Inl e)
    then show ?thesis
      by (simp add: test_immediate_def test_deferred_def Let_def new0 newd imm def)
  next
    case (Inr x)
    obtain result tsk q2 h2 where x: "x = (result, tsk, q2, h2)" by (cases x)
    show ?thesis
    proof (cases "run_all_loop q2 h2")
      case (Inl e)
      then show ?thesis
        by (simp add: test_immediate_def test_deferred_def Let_def new0 newd imm def Inr x
            taskq_run_all_def run_all_def)
    next
      case inr: (Inr y)
      obtain q3 h3 where y: "y = (q3, h3)" by (cases y)
      show ?thesis
        using inr y
        by (simp add: test_immediate_def test_deferred_def Let_def new0 newd imm def Inr x
            taskq_run_all_def run_all_def)
    qed
  qed
qed

section \<open>Lemmas on the universe, the store and the queue\<close>

subsection \<open>Accumulating into cells\<close>

lemma add_vec_length:
  "add_vec as xs h = Inr h' \<Longrightarrow> length h' = length h \<and> length as = length xs \<and> (\<forall>a\<in>set as. a < length h)"
proof (induction as xs h rule: add_vec.induct)
  case (2 a as x xs h)
  from "2.prems" obtain h1 where h1: "add_fn a x h = Inr h1" "add_vec as xs h1 = Inr h'"
    by (auto split: sum.splits)
  have a: "a < length h" "h1 = h[a := h ! a + x]"
    using h1(1) by (auto simp: add_fn_def split: if_splits)
  have "length h' = length h1 \<and> length as = length xs \<and> (\<forall>a\<in>set as. a < length h1)"
    using "2.IH"[OF h1(1) h1(2)] .
  then show ?case using a by simp
qed simp_all

lemma add_vec_succeeds:
  "length as = length xs \<Longrightarrow> \<forall>a\<in>set as. a < length h \<Longrightarrow> \<exists>h'. add_vec as xs h = Inr h'"
proof (induction as xs h rule: add_vec.induct)
  case (2 a as x xs h)
  have "add_fn a x h = Inr (h[a := h ! a + x])" using "2.prems" by (simp add: add_fn_def)
  moreover have "\<exists>h'. add_vec as xs (h[a := h ! a + x]) = Inr h'"
    using "2.IH"[OF calculation] "2.prems" by simp
  ultimately show ?case by simp
qed simp_all

lemma add_vec_frame:
  "add_vec as xs h = Inr h' \<Longrightarrow> a \<notin> set as \<Longrightarrow> h' ! a = h ! a"
proof (induction as xs h rule: add_vec.induct)
  case (2 b as x xs h)
  from "2.prems" obtain h1 where h1: "add_fn b x h = Inr h1" "add_vec as xs h1 = Inr h'"
    by (auto split: sum.splits)
  have b: "h1 = h[b := h ! b + x]"
    using h1(1) by (auto simp: add_fn_def split: if_splits)
  have "h' ! a = h1 ! a" using "2.IH"[OF h1(1) h1(2)] "2.prems"(2) by simp
  then show ?case using b "2.prems"(2) by simp
qed simp_all

lemma add_vec_nth:
  "add_vec as xs h = Inr h' \<Longrightarrow> distinct as \<Longrightarrow> i < length as \<Longrightarrow>
   h' ! (as ! i) = h ! (as ! i) + xs ! i"
proof (induction as xs h arbitrary: i rule: add_vec.induct)
  case (2 b as x xs h)
  from "2.prems" obtain h1 where h1: "add_fn b x h = Inr h1" "add_vec as xs h1 = Inr h'"
    by (auto split: sum.splits)
  have b: "b < length h" "h1 = h[b := h ! b + x]"
    using h1(1) by (auto simp: add_fn_def split: if_splits)
  have d: "b \<notin> set as" "distinct as" using "2.prems"(2) by simp_all
  show ?case
  proof (cases i)
    case 0
    have "h' ! b = h1 ! b" using add_vec_frame[OF h1(2) d(1)] .
    then show ?thesis using 0 b by simp
  next
    case (Suc i')
    then have i': "i' < length as" using "2.prems"(3) by simp
    have "h' ! (as ! i') = h1 ! (as ! i') + xs ! i'"
      using "2.IH"[OF h1(1) h1(2) d(2) i'] .
    moreover have "as ! i' \<noteq> b" using d(1) i' by (metis nth_mem)
    ultimately show ?thesis using Suc b by simp
  qed
qed simp_all

lemma add_vec_singleton: "add_vec [a] [x] h = add_fn a x h"
  by (simp split: sum.splits)

subsection \<open>Storing and loading argument tuples\<close>

lemma payload_arg_inverse: "payload_arg (arg_payload a) = Inr a"
  by (cases a) (simp_all add: payload_arg_def arg_payload_def)

lemma arg_payload_not_impl: "arg_payload a \<noteq> PImpl k" "arg_payload a \<noteq> PImplVec ks"
  by (cases a; simp add: arg_payload_def)+

lemma store_index:
  "store x c = (i, c') \<Longrightarrow> i < length c' \<and> c' ! i = x \<and> (\<exists>d. c' = c @ d)"
proof (cases "find_record x c")
  case None
  assume "store x c = (i, c')"
  then show ?thesis using None by (auto simp: store_def)
next
  case (Some k)
  assume "store x c = (i, c')"
  then show ?thesis using Some find_record_Some[OF Some] by (auto simp: store_def)
qed

lemma store_distinct: "distinct c \<Longrightarrow> distinct (snd (store x c)) \<and> x \<in> set (snd (store x c))"
proof (cases "find_record x c")
  case None
  assume "distinct c"
  then show ?thesis using None find_record_None[of x c] by (simp add: store_def)
next
  case (Some k)
  assume "distinct c"
  then show ?thesis using Some find_record_Some[OF Some] by (auto simp: store_def)
qed

lemma store_present:
  "c ! i = x \<Longrightarrow> i < length c \<Longrightarrow> distinct c \<Longrightarrow> store x c = (i, c)"
proof -
  assume a: "c ! i = x" "i < length c" "distinct c"
  then have "x \<in> set c" by auto
  then obtain k where k: "find_record x c = Some k"
    using find_record_None[of x c] by (cases "find_record x c") auto
  have "k < length c \<and> c ! k = x" using find_record_Some[OF k] by simp
  then have "k = i" using a nth_eq_iff_index_eq[of c k i] by auto
  then show ?thesis using k by (simp add: store_def)
qed

lemma store_argtuple_props:
  "store_argtuple args c = (recs, c') \<Longrightarrow> distinct c \<Longrightarrow>
   distinct c' \<and> (\<exists>d. c' = c @ d) \<and> length recs = length args
   \<and> (\<forall>k<length args. recs ! k < length c' \<and> c' ! (recs ! k) = arg_payload (args ! k))"
proof (induction args arbitrary: c recs c')
  case Nil
  then show ?case by simp
next
  case (Cons a as)
  obtain i c1 where s1: "store (arg_payload a) c = (i, c1)" by (cases "store (arg_payload a) c")
  obtain js c2 where s2: "store_argtuple as c1 = (js, c2)" by (cases "store_argtuple as c1")
  have r: "recs = i # js" "c' = c2" using Cons.prems(1) s1 s2 by simp_all
  have d1: "distinct c1" using store_distinct[OF Cons.prems(2), of "arg_payload a"] s1 by simp
  have i1: "i < length c1" "c1 ! i = arg_payload a" and e1: "\<exists>d. c1 = c @ d"
    using store_index[OF s1] by simp_all
  have ih: "distinct c2 \<and> (\<exists>d. c2 = c1 @ d) \<and> length js = length as
   \<and> (\<forall>k<length as. js ! k < length c2 \<and> c2 ! (js ! k) = arg_payload (as ! k))"
    using Cons.IH[OF s2 d1] .
  then obtain d2 where d2: "c2 = c1 @ d2" by blast
  have i2: "i < length c2" "c2 ! i = arg_payload a"
    using i1 d2 by (simp_all add: nth_append)
  have ext: "\<exists>d. c2 = c @ d" using e1 d2 by auto
  have "\<forall>k<length (a # as). (i # js) ! k < length c2 \<and> c2 ! ((i # js) ! k) = arg_payload ((a # as) ! k)"
  proof (intro allI impI)
    fix k assume "k < length (a # as)"
    then show "(i # js) ! k < length c2 \<and> c2 ! ((i # js) ! k) = arg_payload ((a # as) ! k)"
      using ih i2 by (cases k) simp_all
  qed
  then show ?case using ih ext r by simp
qed

lemma load_argtuple_stored:
  "length recs = length args \<Longrightarrow>
   \<forall>k<length args. recs ! k < length c \<and> c ! (recs ! k) = arg_payload (args ! k) \<Longrightarrow>
   load_argtuple recs c = Inr args"
proof (induction recs arbitrary: args)
  case Nil
  then show ?case by simp
next
  case (Cons i js)
  then obtain a as where args: "args = a # as" by (cases args) auto
  have 0: "i < length c" "c ! i = arg_payload a" using Cons.prems(2) args by auto
  have "\<forall>k<length as. js ! k < length c \<and> c ! (js ! k) = arg_payload (as ! k)"
    using Cons.prems(2) args by auto
  then have "load_argtuple js c = Inr as" using Cons.IH[of as] Cons.prems(1) args by simp
  then show ?case using 0 args by (simp add: load_def payload_arg_inverse)
qed

lemma store_argtuple_again:
  "length recs = length args \<Longrightarrow> distinct c \<Longrightarrow>
   \<forall>k<length args. recs ! k < length c \<and> c ! (recs ! k) = arg_payload (args ! k) \<Longrightarrow>
   store_argtuple args c = (recs, c)"
proof (induction args arbitrary: recs)
  case Nil
  then show ?case by simp
next
  case (Cons a as)
  then obtain i js where recs: "recs = i # js" by (cases recs) auto
  have 0: "i < length c" "c ! i = arg_payload a" using Cons.prems(3) recs by auto
  have s1: "store (arg_payload a) c = (i, c)" using store_present[OF 0(2) 0(1) Cons.prems(2)] .
  have "\<forall>k<length as. js ! k < length c \<and> c ! (js ! k) = arg_payload (as ! k)"
    using Cons.prems(3) recs by auto
  then have "store_argtuple as c = (js, c)" using Cons.IH[of "js"] Cons.prems(1,2) recs by simp
  then show ?case using s1 recs by simp
qed

subsection \<open>Records and their contributions\<close>

lemma run_contribution:
  "run r c h = (case contribution r c of Inl e \<Rightarrow> Inl e | Inr (as, xs) \<Rightarrow> add_vec as xs h)"
  unfolding run_def contribution_def
  by (auto simp: Let_def add_vec_singleton split: sum.splits handle.splits resultT.splits)

lemma get_output_stat [simp]: "get_output (r\<lparr>stat := s\<rparr>) c = get_output r c"
  by (simp add: get_output_def)

lemma contribution_stat [simp]: "contribution (r\<lparr>stat := s\<rparr>) c = contribution r c"
  by (auto simp: contribution_def split: sum.splits handle.splits resultT.splits)

lemma run_stat [simp]: "run (r\<lparr>stat := s\<rparr>) c h = run r c h"
  by (simp add: run_contribution)

lemma run_seq_append:
  "run_seq (rs @ rs') c h = (case run_seq rs c h of Inl e \<Rightarrow> Inl e | Inr h' \<Rightarrow> run_seq rs' c h')"
  by (induction rs arbitrary: h) (auto split: sum.splits)

subsection \<open>The dispatch loop for records of one priority\<close>

lemma first_index_None: "first_index P xs = None \<longleftrightarrow> (\<forall>x\<in>set xs. \<not> P x)"
  by (induction xs) auto

lemma first_index_cong:
  "(\<And>x. x \<in> set xs \<Longrightarrow> P x = Q x) \<Longrightarrow> first_index P xs = first_index Q xs"
  by (induction xs) auto

lemma first_index_decomp:
  "first_index P xs = Some i \<Longrightarrow>
   \<exists>pre r post. xs = pre @ r # post \<and> length pre = i \<and> P r \<and> (\<forall>x\<in>set pre. \<not> P x)"
proof -
  assume a: "first_index P xs = Some i"
  have i: "i < length xs" "P (xs ! i)" "\<forall>j<i. \<not> P (xs ! j)"
    using first_index_Some[OF a] by simp_all
  have "xs = take i xs @ xs ! i # drop (Suc i) xs"
    using i(1) by (simp add: id_take_nth_drop)
  moreover have "length (take i xs) = i" using i(1) by simp
  moreover have "\<forall>x\<in>set (take i xs). \<not> P x"
    using i(1,3) by (auto simp: in_set_conv_nth)
  ultimately show ?thesis using i(2) by blast
qed

lemma fold_max_const: "\<forall>x\<in>set ps. x = (p::nat) \<Longrightarrow> fold max ps p = p"
  by (induction ps) auto

lemma highest_waiting_equal_priority:
  assumes "\<forall>r\<in>set ts. stat r = Waiting \<longrightarrow> priority r = p"
  shows "highest_waiting ts = first_index (\<lambda>r. stat r = Waiting) ts"
proof (cases "filter (\<lambda>r. stat r = Waiting) ts")
  case Nil
  then have "\<forall>x\<in>set ts. \<not> stat x = Waiting" by (simp add: filter_empty_conv)
  then have "first_index (\<lambda>r. stat r = Waiting) ts = None" by (simp add: first_index_None)
  then show ?thesis using Nil by (simp add: highest_waiting_def)
next
  case (Cons r rs)
  have "set (r # rs) = {x \<in> set ts. stat x = Waiting}"
    using Cons by (metis set_filter)
  then have all: "\<forall>x\<in>set (r # rs). priority x = p"
    using assms by auto
  then have "fold max (map priority rs) (priority r) = p"
    using fold_max_const[of "map priority rs" p] by simp
  then have "highest_waiting ts = first_index (\<lambda>r. stat r = Waiting \<and> priority r = p) ts"
    using Cons by (simp add: highest_waiting_def)
  also have "\<dots> = first_index (\<lambda>r. stat r = Waiting) ts"
    by (rule first_index_cong) (use assms in auto)
  finally show ?thesis .
qed

lemma run_all_loop_equal_priority:
  fixes q :: "('s, 'f::plus) MacroTaskQ"
  assumes "\<forall>r\<in>set (taskq q). stat r = Waiting \<longrightarrow> priority r = p"
  shows "run_all_loop q h =
         (case run_seq (filter (\<lambda>r. stat r = Waiting) (taskq q)) (cloud q) h of
            Inl e \<Rightarrow> Inl e
          | Inr h' \<Rightarrow> Inr (q\<lparr>taskq := mark_done (taskq q)\<rparr>, h'))"
  using assms
proof (induction q h rule: run_all_loop.induct)
  case (1 q h)
  let ?W = "\<lambda>r::('s, 'f) MacroTaskInternal. stat r = Waiting"
  have hw: "highest_waiting (taskq q) = first_index ?W (taskq q)"
    using highest_waiting_equal_priority[OF "1.prems"] .
  show ?case
  proof (cases "first_index ?W (taskq q)")
    case None
    then have no: "\<forall>x\<in>set (taskq q). \<not> ?W x" by (simp add: first_index_None)
    then have f: "filter ?W (taskq q) = []" by (simp add: filter_empty_conv)
    have m: "mark_done (taskq q) = taskq q"
      unfolding mark_done_def using no by (simp add: map_idI)
    show ?thesis
      using None hw f m by (subst run_all_loop.simps) simp
  next
    case (Some i)
    obtain pre r post where d: "taskq q = pre @ r # post" "length pre = i" "?W r" "\<forall>x\<in>set pre. \<not> ?W x"
      using first_index_decomp[OF Some] by blast
    let ?q1 = "set_stat i Dispatched q"
    let ?q2 = "set_stat i Running ?q1"
    let ?q3 = "set_stat i Done ?q2"
    have t2: "taskq ?q2 ! i = r\<lparr>stat := Running\<rparr>" "cloud ?q2 = cloud q"
      using d(1,2) by (auto simp: set_stat_def nth_append)
    have t3: "taskq ?q3 = pre @ r\<lparr>stat := Done\<rparr> # post" "cloud ?q3 = cloud q"
      using d(1,2) by (auto simp: set_stat_def nth_append list_update_append)
    have fpre: "filter ?W pre = []" using d(4) by (simp add: filter_empty_conv)
    have f0: "filter ?W (taskq q) = r # filter ?W post" using d(1,3) fpre by simp
    have f3: "filter ?W (taskq ?q3) = filter ?W post" using t3(1) fpre by simp
    have mpre: "mark_done pre = pre"
      unfolding mark_done_def using d(4) by (simp add: map_idI)
    have m3: "mark_done (taskq ?q3) = mark_done (taskq q)"
      using d(1,3) t3(1) by (simp add: mark_done_def)
    have q3: "?q3\<lparr>taskq := mark_done (taskq q)\<rparr> = q\<lparr>taskq := mark_done (taskq q)\<rparr>"
      by (simp add: set_stat_def)
    have step: "run_all_loop q h =
        (case run r (cloud q) h of Inl e \<Rightarrow> Inl e | Inr h' \<Rightarrow> run_all_loop ?q3 h')"
      using hw Some t2 by (subst run_all_loop.simps) (simp add: Let_def)
    show ?thesis
    proof (cases "run r (cloud q) h")
      case (Inl e)
      then show ?thesis using step f0 by simp
    next
      case (Inr h')
      have pr: "\<forall>x\<in>set (taskq ?q3). stat x = Waiting \<longrightarrow> priority x = p"
        using "1.prems" d(1) t3(1) by auto
      have run2: "run (taskq ?q2 ! i) (cloud ?q2) h = Inr h'"
        using Inr t2 by simp
      have ih: "run_all_loop ?q3 h' =
         (case run_seq (filter ?W (taskq ?q3)) (cloud ?q3) h' of
            Inl e \<Rightarrow> Inl e
          | Inr h'' \<Rightarrow> Inr (?q3\<lparr>taskq := mark_done (taskq ?q3)\<rparr>, h''))"
        using "1.IH"[OF _ refl refl run2 pr] hw Some by simp
      show ?thesis
        using step Inr ih f0 f3 t3(2) m3 q3 by (simp split: sum.splits)
    qed
  qed
qed

subsection \<open>Submitting records of one priority\<close>

lemma insert_by_priority_append:
  "\<forall>x\<in>set ts. priority r \<le> priority x \<Longrightarrow> insert_by_priority r ts = ts @ [r]"
  by (induction ts) auto

lemma add_tasks_append:
  assumes "\<forall>x\<in>set (taskq q). p \<le> priority x"
    and "\<forall>r\<in>set vtask. priority r = p \<and> stat r = Waiting"
  shows "add_tasks vtask q = q\<lparr>taskq := taskq q @ vtask\<rparr>"
proof -
  have "foldl (\<lambda>ts r. insert_by_priority (r\<lparr>stat := Waiting\<rparr>) ts) ts vtask = ts @ vtask"
    if "\<forall>x\<in>set ts. p \<le> priority x" for ts
    using assms(2) that
  proof (induction vtask arbitrary: ts)
    case Nil
    then show ?case by simp
  next
    case (Cons r rs)
    have r: "r\<lparr>stat := Waiting\<rparr> = r" "priority r = p" using Cons.prems(1) by simp_all
    have "insert_by_priority r ts = ts @ [r]"
      using insert_by_priority_append[of ts r] Cons.prems(2) r(2) by simp
    then have ins: "insert_by_priority (r\<lparr>stat := Waiting\<rparr>) ts = ts @ [r]"
      by (subst r(1))
    have "\<forall>x\<in>set (ts @ [r]). p \<le> priority x" using Cons.prems(2) r(2) by simp
    then have "foldl (\<lambda>ts r. insert_by_priority (r\<lparr>stat := Waiting\<rparr>) ts) (ts @ [r]) rs
               = (ts @ [r]) @ rs"
      using Cons.IH[of "ts @ [r]"] Cons.prems(1) by simp
    then show ?case unfolding foldl_Cons ins by simp
  qed
  then show ?thesis using assms(1) by (simp add: add_tasks_def)
qed

subsection \<open>Handles\<close>

lemma alloc_cells:
  "alloc r h = (hdl, h') \<Longrightarrow>
   h' = h @ cells_of r \<and> handle_cells hdl = [length h..<length h + length (cells_of r)]
   \<and> (case r of RFn _ \<Rightarrow> (\<exists>a. hdl = HFn a) | RVec _ \<Rightarrow> (\<exists>as. hdl = HVec as))"
  by (cases r) (auto simp: alloc_def cells_of_def handle_cells_def)

lemma deref_cells_map:
  "\<forall>a\<in>set as. a < length h \<Longrightarrow> deref_cells h as = Inr (map (\<lambda>a. h ! a) as)"
  by (induction as) (simp_all add: deref_cell_def)

lemma deref_handle:
  "\<forall>a\<in>set (handle_cells hdl). a < length h \<Longrightarrow>
   deref h hdl = Inr (case hdl of HFn a \<Rightarrow> RFn (h ! a) | HVec as \<Rightarrow> RVec (map (\<lambda>a. h ! a) as))"
  by (cases hdl) (simp_all add: deref_def handle_cells_def deref_cell_def deref_cells_map)

lemma get_output_new:
  "load i c = Inr (handle_payload hdl) \<Longrightarrow>
   get_output (MacroTaskInternal_new tsk b recs [i]) c = Inr hdl"
  by (cases hdl) (simp_all add: get_output_def MacroTaskInternal_new_def handle_payload_def)

lemma contribution_new:
  assumes "load_argtuple recs c = Inr args"
    and "load i c = Inr (handle_payload hdl)"
    and "result_fits (allocator tsk args) b (task_op tsk (copy_input_batch b args))"
    and "case allocator tsk args of RFn _ \<Rightarrow> (\<exists>a. hdl = HFn a) | RVec _ \<Rightarrow> (\<exists>as. hdl = HVec as)"
    and "length (handle_cells hdl) = length (cells_of (allocator tsk args))"
  shows "contribution (MacroTaskInternal_new tsk b recs [i]) c = Inr (handle_cells hdl, batch_value tsk args b)
       \<and> length (batch_value tsk args b) = length (handle_cells hdl)"
proof (cases "allocator tsk args")
  case (RFn z)
  then obtain x where x: "task_op tsk (copy_input_batch b args) = RFn x"
    using assms(3) by (cases "task_op tsk (copy_input_batch b args)") simp_all
  obtain a where a: "hdl = HFn a" using assms(4) RFn by auto
  show ?thesis
    using assms(1) get_output_new[OF assms(2)] x a
    by (simp add: contribution_def MacroTaskInternal_new_def batch_value_def handle_cells_def)
next
  case (RVec zs)
  then obtain xs where xs: "task_op tsk (copy_input_batch b args) = RVec xs"
      "range_begin (b_result b) + length xs \<le> length zs"
    using assms(3) by (cases "task_op tsk (copy_input_batch b args)") simp_all
  obtain as where as: "hdl = HVec as" using assms(4) RVec by auto
  have len: "length (insert_batch (b_result b) zs xs) = length zs"
    using xs(2) by (simp add: insert_batch_def)
  show ?thesis
    using assms(1,5) get_output_new[OF assms(2)] xs(1) as RVec len
    by (simp add: contribution_def MacroTaskInternal_new_def batch_value_def handle_cells_def
        cells_of_def insert_result_batch_def)
qed

subsection \<open>Running records that share their output object\<close>

lemma run_seq_shared:
  fixes h :: "('f::plus) list"
  assumes "distinct as"
    and "\<forall>r\<in>set rs. contribution r c = Inr (as, val r) \<and> length (val r) = length as"
    and "\<forall>a\<in>set as. a < length h"
  shows "\<exists>h'. run_seq rs c h = Inr h' \<and> length h' = length h
       \<and> (\<forall>i<length as. h' ! (as ! i) = foldl (+) (h ! (as ! i)) (map (\<lambda>r. val r ! i) rs))
       \<and> (\<forall>a. a \<notin> set as \<longrightarrow> h' ! a = h ! a)"
  using assms(2,3)
proof (induction rs arbitrary: h)
  case Nil
  then show ?case by simp
next
  case (Cons r rs)
  have c: "contribution r c = Inr (as, val r)" "length (val r) = length as"
    using Cons.prems(1) by simp_all
  obtain h1 where h1: "add_vec as (val r) h = Inr h1"
    using add_vec_succeeds[of as "val r" h] c(2) Cons.prems(2) by auto
  have run: "run r c h = Inr h1" using c(1) h1 by (simp add: run_contribution)
  have l1: "length h1 = length h" using add_vec_length[OF h1] by simp
  have n1: "\<forall>i<length as. h1 ! (as ! i) = h ! (as ! i) + val r ! i"
    using add_vec_nth[OF h1 assms(1)] by simp
  have f1: "\<forall>a. a \<notin> set as \<longrightarrow> h1 ! a = h ! a"
    using add_vec_frame[OF h1] by simp
  obtain h' where h': "run_seq rs c h1 = Inr h'" "length h' = length h1"
      "\<forall>i<length as. h' ! (as ! i) = foldl (+) (h1 ! (as ! i)) (map (\<lambda>r. val r ! i) rs)"
      "\<forall>a. a \<notin> set as \<longrightarrow> h' ! a = h1 ! a"
    using Cons.IH[of h1] Cons.prems l1 by auto
  have "run_seq (r # rs) c h = Inr h'" using run h'(1) by simp
  moreover have "length h' = length h" using h'(2) l1 by simp
  moreover have "\<forall>i<length as. h' ! (as ! i) = foldl (+) (h ! (as ! i)) (map (\<lambda>r. val r ! i) (r # rs))"
    using h'(3) n1 by simp
  moreover have "\<forall>a. a \<notin> set as \<longrightarrow> h' ! a = h ! a" using h'(4) f1 by simp
  ultimately show ?case by blast
qed

subsection \<open>One submission\<close>

lemma effective_partitioner_after [simp]:
  "effective_partitioner P w (task_after_call P w t) = effective_partitioner P w t"
  by (cases "partitioner t") (simp_all add: effective_partitioner_def task_after_call_def set_nsubworld_def)

lemma task_after_call_idem [simp]:
  "task_after_call P w (task_after_call P w t) = task_after_call P w t"
  by (cases "partitioner t") (simp_all add: effective_partitioner_def task_after_call_def set_nsubworld_def)

lemma task_after_call_fields [simp]:
  "task_op (task_after_call P w t) = task_op t"
  "allocator (task_after_call P w t) = allocator t"
  by (cases "partitioner t"; simp add: task_after_call_def)+

lemma submit_eq:
  assumes "partition_tasks (effective_partitioner P w t) args = Inr bs"
    and "store_argtuple args (cloud q) = (recs, c1)"
    and "alloc (allocator t args) h = (hdl, h2)"
    and "store (handle_payload hdl) c1 = (i, c2)"
    and "\<forall>x\<in>set (taskq q). default_priority \<le> priority x"
  shows "submit P w t args q h =
         Inr (hdl, task_after_call P w t,
              q\<lparr>taskq := taskq q @ map (\<lambda>b. MacroTaskInternal_new (task_after_call P w t) b recs [i]) bs,
                cloud := c2\<rparr>, h2)"
proof -
  let ?tsk = "task_after_call P w t"
  let ?vtask = "map (\<lambda>b. MacroTaskInternal_new ?tsk b recs [i]) bs"
  have po: "prepare_output ?tsk c1 h args = ([i], hdl, c2, h2)"
    using assms(3,4) by (simp add: prepare_output_def handle_payload_def)
  have "add_tasks ?vtask (q\<lparr>cloud := c2\<rparr>) = (q\<lparr>cloud := c2\<rparr>)\<lparr>taskq := taskq (q\<lparr>cloud := c2\<rparr>) @ ?vtask\<rparr>"
    by (rule add_tasks_append[where p = default_priority])
       (use assms(5) in \<open>auto simp: MacroTaskInternal_new_def\<close>)
  then have at: "add_tasks ?vtask (q\<lparr>cloud := c2\<rparr>) = q\<lparr>taskq := taskq q @ ?vtask, cloud := c2\<rparr>"
    by simp
  show ?thesis
    unfolding submit_def effective_partitioner_def[symmetric] task_after_call_def[symmetric] Let_def
    using assms(1,2) po at by simp
qed

subsection \<open>Two groups of records with equal contributions to two output objects\<close>

lemma two_phase_run:
  fixes h2 :: "('f::plus) list"
  assumes d: "distinct as1" "distinct as2" "set as1 \<inter> set as2 = {}"
    and l: "length as1 = n" "length as2 = n"
    and b: "\<forall>a\<in>set as1 \<union> set as2. a < length h2"
    and e: "\<forall>i<n. h2 ! (as1 ! i) = h2 ! (as2 ! i)"
    and c1: "\<forall>r\<in>set rs1. contribution r c = Inr (as1, val r) \<and> length (val r) = n"
    and c2: "\<forall>r\<in>set rs2. contribution r c = Inr (as2, val r) \<and> length (val r) = n"
    and v: "map val rs1 = map val rs2"
  shows "\<exists>h4. run_seq (rs1 @ rs2) c h2 = Inr h4 \<and> length h4 = length h2
            \<and> (\<forall>i<n. h4 ! (as1 ! i) = h4 ! (as2 ! i))"
proof -
  obtain h3 where h3: "run_seq rs1 c h2 = Inr h3" "length h3 = length h2"
      "\<forall>i<length as1. h3 ! (as1 ! i) = foldl (+) (h2 ! (as1 ! i)) (map (\<lambda>r. val r ! i) rs1)"
      "\<forall>a. a \<notin> set as1 \<longrightarrow> h3 ! a = h2 ! a"
    using run_seq_shared[of as1 rs1 c val h2] d(1) c1 l(1) b by auto
  have b3: "\<forall>a\<in>set as2. a < length h3" using b h3(2) by simp
  obtain h4 where h4: "run_seq rs2 c h3 = Inr h4" "length h4 = length h3"
      "\<forall>i<length as2. h4 ! (as2 ! i) = foldl (+) (h3 ! (as2 ! i)) (map (\<lambda>r. val r ! i) rs2)"
      "\<forall>a. a \<notin> set as2 \<longrightarrow> h4 ! a = h3 ! a"
    using run_seq_shared[of as2 rs2 c val h3] d(2) c2 l(2) b3 by auto
  have run: "run_seq (rs1 @ rs2) c h2 = Inr h4"
    using h3(1) h4(1) by (simp add: run_seq_append)
  have "h4 ! (as1 ! i) = h4 ! (as2 ! i)" if i: "i < n" for i
  proof -
    have m: "map (\<lambda>r. val r ! i) rs1 = map (\<lambda>r. val r ! i) rs2"
    proof -
      have "map (\<lambda>r. val r ! i) rs1 = map (\<lambda>x. x ! i) (map val rs1)" by simp
      also have "\<dots> = map (\<lambda>x. x ! i) (map val rs2)" using v by simp
      finally show ?thesis by simp
    qed
    have n1: "as1 ! i \<notin> set as2" using d(3) i l(1) by (metis disjoint_iff nth_mem)
    have n2: "as2 ! i \<notin> set as1" using d(3) i l(2) by (metis disjoint_iff nth_mem)
    have "h4 ! (as1 ! i) = h3 ! (as1 ! i)" using h4(4) n1 by simp
    also have "\<dots> = foldl (+) (h2 ! (as1 ! i)) (map (\<lambda>r. val r ! i) rs1)"
      using h3(3) i l(1) by simp
    also have "\<dots> = foldl (+) (h2 ! (as2 ! i)) (map (\<lambda>r. val r ! i) rs2)"
      using e i m by simp
    also have "\<dots> = foldl (+) (h3 ! (as2 ! i)) (map (\<lambda>r. val r ! i) rs2)"
      using h3(4) n2 by simp
    also have "\<dots> = h4 ! (as2 ! i)" using h4(3) i l(2) by simp
    finally show ?thesis .
  qed
  then show ?thesis using run h4(2) h3(2) by simp
qed

subsection \<open>A deferred call\<close>

lemma count_list_distinct: "distinct xs \<Longrightarrow> x \<in> set xs \<Longrightarrow> count_list xs x = 1"
  by (induction xs) (auto simp: count_list_0_iff)

lemma stored_extends:
  assumes "\<forall>k<length args. recs ! k < length c \<and> c ! (recs ! k) = arg_payload (args ! k)"
  shows "\<forall>k<length args. recs ! k < length (c @ d) \<and> (c @ d) ! (recs ! k) = arg_payload (args ! k)"
  using assms by (auto simp: nth_append)

lemma well_shaped_batch:
  "well_shaped t args bs \<Longrightarrow> b \<in> set bs \<Longrightarrow>
   result_fits (allocator t args) b (task_op t (copy_input_batch b args))"
  by (simp add: well_shaped_def list_all_iff)

lemma mark_done_new:
  "map inputrecords (mark_done (map (\<lambda>b. MacroTaskInternal_new tsk b recs os) bs)) = replicate (length bs) recs"
  by (induction bs) (simp_all add: mark_done_def MacroTaskInternal_new_def)

lemma submitted_contributions:
  assumes ld: "load_argtuple recs c = Inr args"
    and lo: "load i c = Inr (handle_payload hdl)"
    and ws: "well_shaped tsk args bs"
    and kind: "case allocator tsk args of RFn _ \<Rightarrow> (\<exists>a. hdl = HFn a) | RVec _ \<Rightarrow> (\<exists>as. hdl = HVec as)"
    and len: "length (handle_cells hdl) = length (cells_of (allocator tsk args))"
  shows "\<forall>r\<in>set (map (\<lambda>b. MacroTaskInternal_new tsk b recs [i]) bs).
           contribution r c = Inr (handle_cells hdl, batch_value tsk args (batch (task r)))
           \<and> length (batch_value tsk args (batch (task r))) = length (handle_cells hdl)"
proof
  fix r assume "r \<in> set (map (\<lambda>b. MacroTaskInternal_new tsk b recs [i]) bs)"
  then obtain b where b: "b \<in> set bs" "r = MacroTaskInternal_new tsk b recs [i]" by auto
  have bt: "batch (task r) = b" using b(2) by (simp add: MacroTaskInternal_new_def)
  show "contribution r c = Inr (handle_cells hdl, batch_value tsk args (batch (task r)))
           \<and> length (batch_value tsk args (batch (task r))) = length (handle_cells hdl)"
    unfolding bt unfolding b(2)
    by (rule contribution_new[OF ld lo well_shaped_batch[OF ws b(1)] kind len])
qed

lemma deferred_call:
  fixes u :: "('s, 'f::plus) universe"
  assumes ptr: "taskq_ptr mt = Some qp" "qp < length (queues u)"
    and part: "partition_tasks (effective_partitioner P (mt_world mt) (mt_task mt)) args = Inr bs"
    and prio: "\<forall>x\<in>set (taskq (queues u ! qp)). default_priority \<le> priority x"
  shows "\<exists>hdl recs i c1 c2.
           MacroTask_2G_call P mt args u =
             Inr (hdl,
                  mt\<lparr>taskq_ptr := Some qp, mt_task := task_after_call P (mt_world mt) (mt_task mt)\<rparr>,
                  u\<lparr>impls := impls u @ cells_of (allocator (mt_task mt) args),
                    queues := (queues u)[qp := (queues u ! qp)
                      \<lparr>taskq := taskq (queues u ! qp) @
                          map (\<lambda>b. MacroTaskInternal_new (task_after_call P (mt_world mt) (mt_task mt)) b recs [i]) bs,
                        cloud := c2\<rparr>]\<rparr>)
         \<and> store_argtuple args (cloud (queues u ! qp)) = (recs, c1)
         \<and> store (handle_payload hdl) c1 = (i, c2)
         \<and> handle_cells hdl = [length (impls u)..<length (impls u) + length (cells_of (allocator (mt_task mt) args))]
         \<and> (case allocator (mt_task mt) args of RFn _ \<Rightarrow> (\<exists>a. hdl = HFn a) | RVec _ \<Rightarrow> (\<exists>as. hdl = HVec as))"
proof -
  let ?q = "queues u ! qp"
  obtain recs c1 where st: "store_argtuple args (cloud ?q) = (recs, c1)"
    by (cases "store_argtuple args (cloud ?q)")
  obtain hdl h2 where al: "alloc (allocator (mt_task mt) args) (impls u) = (hdl, h2)"
    by (cases "alloc (allocator (mt_task mt) args) (impls u)")
  obtain i c2 where so: "store (handle_payload hdl :: ('s, 'f) payload) c1 = (i, c2)"
    by (cases "store (handle_payload hdl :: ('s, 'f) payload) c1")
  have ac: "h2 = impls u @ cells_of (allocator (mt_task mt) args)"
      "handle_cells hdl = [length (impls u)..<length (impls u) + length (cells_of (allocator (mt_task mt) args))]"
      "case allocator (mt_task mt) args of RFn _ \<Rightarrow> (\<exists>a. hdl = HFn a) | RVec _ \<Rightarrow> (\<exists>as. hdl = HVec as)"
    using alloc_cells[OF al] by simp_all
  have sub: "submit P (mt_world mt) (mt_task mt) args ?q (impls u) =
         Inr (hdl, task_after_call P (mt_world mt) (mt_task mt),
              ?q\<lparr>taskq := taskq ?q @ map (\<lambda>b. MacroTaskInternal_new (task_after_call P (mt_world mt) (mt_task mt)) b recs [i]) bs,
                cloud := c2\<rparr>, h2)"
    by (rule submit_eq[OF part st al so prio])
  have "MacroTask_2G_call P mt args u =
             Inr (hdl,
                  mt\<lparr>taskq_ptr := Some qp, mt_task := task_after_call P (mt_world mt) (mt_task mt)\<rparr>,
                  u\<lparr>impls := impls u @ cells_of (allocator (mt_task mt) args),
                    queues := (queues u)[qp := ?q
                      \<lparr>taskq := taskq ?q @
                          map (\<lambda>b. MacroTaskInternal_new (task_after_call P (mt_world mt) (mt_task mt)) b recs [i]) bs,
                        cloud := c2\<rparr>]\<rparr>)"
    unfolding call_deferred[OF ptr] sub ac(1) by simp
  then show ?thesis using st so ac(2,3) by blast
qed

section \<open>Submitting a task twice\<close>

text \<open>
  Claim C3. For every task that is well shaped on its argument tuple and the
  batches the partitioner makes, \<^verbatim>\<open>test_twice\<close> (the task submitted twice with the
  same arguments to one fresh queue, then \<^verbatim>\<open>run_all\<close>) completes; the two results
  have the same value; every record of the queue refers to the same input records,
  which load back to the argument tuple; and the store holds the payload of every
  argument exactly once.
\<close>

theorem double_submission_caching:
  fixes u :: "('s, 'f::plus) universe"
  assumes part: "partition_tasks (effective_partitioner P w t) args = Inr bs"
    and ws: "well_shaped t args bs"
  shows "\<exists>v c recs. test_twice P w t args u = Inr (v, v, c, replicate (2 * length bs) recs)
           \<and> load_argtuple recs c = Inr args
           \<and> (\<forall>a\<in>set args. count_list c (arg_payload a) = 1)"
proof -
  let ?Q = "MacroTaskQ_new w (world_size w) :: ('s, 'f) MacroTaskQ"
  let ?qp = "length (queues u)"
  let ?u1 = "u\<lparr>queues := queues u @ [?Q]\<rparr>"
  let ?mt = "\<lparr>mt_world = w, mt_task = t, taskq_ptr = Some ?qp\<rparr> :: ('s, 'f) MacroTask_2G"
  let ?tsk = "task_after_call P w t"
  let ?zs = "cells_of (allocator t args)"
  let ?n = "length ?zs"
  let ?h0 = "impls u"
  have new: "MacroTask_2G_new w t (Some ?qp) ?u1 = Inr ?mt"
    by (simp add: MacroTask_2G_new_def MacroTaskQ_new_def)
  \<comment> \<open>the first call\<close>
  have Q: "queues ?u1 ! ?qp = ?Q" "taskq ?Q = []" "cloud ?Q = []"
    by (simp_all add: MacroTaskQ_new_def)
  obtain hdl1 recs o1 c0 c1 where call1:
      "MacroTask_2G_call P ?mt args ?u1 =
         Inr (hdl1, ?mt\<lparr>taskq_ptr := Some ?qp, mt_task := ?tsk\<rparr>,
              ?u1\<lparr>impls := ?h0 @ ?zs,
                  queues := (queues ?u1)[?qp := ?Q\<lparr>taskq := [] @ map (\<lambda>b. MacroTaskInternal_new ?tsk b recs [o1]) bs,
                                                 cloud := c1\<rparr>]\<rparr>)"
    and st0: "store_argtuple args [] = (recs, c0)"
    and so1: "store (handle_payload hdl1 :: ('s, 'f) payload) c0 = (o1, c1)"
    and cells1: "handle_cells hdl1 = [length ?h0..<length ?h0 + ?n]"
    and kind1: "case allocator t args of RFn _ \<Rightarrow> (\<exists>a. hdl1 = HFn a) | RVec _ \<Rightarrow> (\<exists>as. hdl1 = HVec as)"
    using deferred_call[of ?mt ?qp ?u1 P args bs] part unfolding Q by auto
  let ?vtask1 = "map (\<lambda>b. MacroTaskInternal_new ?tsk b recs [o1]) bs"
  let ?q1 = "?Q\<lparr>taskq := ?vtask1, cloud := c1\<rparr>"
  let ?mt1 = "?mt\<lparr>taskq_ptr := Some ?qp, mt_task := ?tsk\<rparr>"
  let ?h1 = "?h0 @ ?zs"
  let ?u2 = "?u1\<lparr>impls := ?h1, queues := (queues ?u1)[?qp := ?q1]\<rparr>"
  have call1': "MacroTask_2G_call P ?mt args ?u1 = Inr (hdl1, ?mt1, ?u2)"
    using call1 by simp
  have p0: "distinct c0" "length recs = length args"
      "\<forall>k<length args. recs ! k < length c0 \<and> c0 ! (recs ! k) = arg_payload (args ! k)"
    using store_argtuple_props[OF st0] by simp_all
  obtain d1 where d1: "c1 = c0 @ d1" "o1 < length c1" "c1 ! o1 = handle_payload hdl1"
    using store_index[OF so1] by auto
  have dc1: "distinct c1" using store_distinct[OF p0(1), of "handle_payload hdl1"] so1 by simp
  have p1: "\<forall>k<length args. recs ! k < length c1 \<and> c1 ! (recs ! k) = arg_payload (args ! k)"
    unfolding d1(1) by (rule stored_extends[OF p0(3)])
  \<comment> \<open>the second call\<close>
  have Q2: "queues ?u2 ! ?qp = ?q1" "taskq ?q1 = ?vtask1" "cloud ?q1 = c1" "impls ?u2 = ?h1"
    by simp_all
  have part2: "partition_tasks (effective_partitioner P (mt_world ?mt1) (mt_task ?mt1)) args = Inr bs"
    using part by simp
  have prio2: "\<forall>x\<in>set (taskq (queues ?u2 ! ?qp)). default_priority \<le> priority x"
    unfolding Q2 by (auto simp: MacroTaskInternal_new_def)
  have again: "store_argtuple args c1 = (recs, c1)"
    by (rule store_argtuple_again[OF p0(2) dc1 p1])
  obtain hdl2 recs2 o2 c1' c2 where call2:
      "MacroTask_2G_call P ?mt1 args ?u2 =
         Inr (hdl2, ?mt1\<lparr>taskq_ptr := Some ?qp, mt_task := task_after_call P (mt_world ?mt1) (mt_task ?mt1)\<rparr>,
              ?u2\<lparr>impls := impls ?u2 @ cells_of (allocator (mt_task ?mt1) args),
                  queues := (queues ?u2)[?qp := (queues ?u2 ! ?qp)
                     \<lparr>taskq := taskq (queues ?u2 ! ?qp) @
                         map (\<lambda>b. MacroTaskInternal_new (task_after_call P (mt_world ?mt1) (mt_task ?mt1)) b recs2 [o2]) bs,
                       cloud := c2\<rparr>]\<rparr>)"
    and st2: "store_argtuple args (cloud (queues ?u2 ! ?qp)) = (recs2, c1')"
    and so2: "store (handle_payload hdl2 :: ('s, 'f) payload) c1' = (o2, c2)"
    and cells2': "handle_cells hdl2 = [length (impls ?u2)..<length (impls ?u2) + length (cells_of (allocator (mt_task ?mt1) args))]"
    and kind2': "case allocator (mt_task ?mt1) args of RFn _ \<Rightarrow> (\<exists>a. hdl2 = HFn a) | RVec _ \<Rightarrow> (\<exists>as. hdl2 = HVec as)"
    using deferred_call[of ?mt1 ?qp ?u2 P args bs, OF _ _ part2 prio2] by auto
  have r2: "recs2 = recs" "c1' = c1" using st2 again unfolding Q2 by simp_all
  let ?vtask2 = "map (\<lambda>b. MacroTaskInternal_new ?tsk b recs [o2]) bs"
  let ?q2 = "?Q\<lparr>taskq := ?vtask1 @ ?vtask2, cloud := c2\<rparr>"
  let ?h2 = "?h1 @ ?zs"
  let ?u3 = "?u1\<lparr>impls := ?h2, queues := (queues u) @ [?q2]\<rparr>"
  have call2': "MacroTask_2G_call P ?mt1 args ?u2 = Inr (hdl2, ?mt1, ?u3)"
    using call2 unfolding r2 by simp
  have cells2: "handle_cells hdl2 = [length ?h1..<length ?h1 + ?n]"
    using cells2' by simp
  have kind2: "case allocator t args of RFn _ \<Rightarrow> (\<exists>a. hdl2 = HFn a) | RVec _ \<Rightarrow> (\<exists>as. hdl2 = HVec as)"
    using kind2' by simp
  have so2': "store (handle_payload hdl2 :: ('s, 'f) payload) c1 = (o2, c2)"
    using so2 r2 by simp
  obtain d2 where d2: "c2 = c1 @ d2" "o2 < length c2" "c2 ! o2 = handle_payload hdl2"
    using store_index[OF so2'] by auto
  have dc2: "distinct c2" using store_distinct[OF dc1, of "handle_payload hdl2"] so2' by simp
  have p2: "\<forall>k<length args. recs ! k < length c2 \<and> c2 ! (recs ! k) = arg_payload (args ! k)"
    unfolding d2(1) by (rule stored_extends[OF p1])
  have ld2: "load_argtuple recs c2 = Inr args"
    by (rule load_argtuple_stored[OF p0(2) p2])
  have lo1: "load o1 c2 = Inr (handle_payload hdl1 :: ('s, 'f) payload)"
    using d1(2,3) d2(1) by (simp add: load_def nth_append)
  have lo2: "load o2 c2 = Inr (handle_payload hdl2 :: ('s, 'f) payload)"
    using d2(2,3) by (simp add: load_def)
  \<comment> \<open>the run\<close>
  have ws': "well_shaped ?tsk args bs" using ws by (simp add: well_shaped_def)
  let ?val = "\<lambda>r::('s, 'f) MacroTaskInternal. batch_value ?tsk args (batch (task r))"
  have k1: "case allocator ?tsk args of RFn _ \<Rightarrow> (\<exists>a. hdl1 = HFn a) | RVec _ \<Rightarrow> (\<exists>as. hdl1 = HVec as)"
    using kind1 by simp
  have k2: "case allocator ?tsk args of RFn _ \<Rightarrow> (\<exists>a. hdl2 = HFn a) | RVec _ \<Rightarrow> (\<exists>as. hdl2 = HVec as)"
    using kind2 by simp
  have len1: "length (handle_cells hdl1) = length (cells_of (allocator ?tsk args))"
    using cells1 by simp
  have len2: "length (handle_cells hdl2) = length (cells_of (allocator ?tsk args))"
    using cells2 by simp
  have con1: "\<forall>r\<in>set ?vtask1. contribution r c2 = Inr (handle_cells hdl1, ?val r) \<and> length (?val r) = ?n"
    using submitted_contributions[OF ld2 lo1 ws' k1 len1] cells1 by simp
  have con2: "\<forall>r\<in>set ?vtask2. contribution r c2 = Inr (handle_cells hdl2, ?val r) \<and> length (?val r) = ?n"
    using submitted_contributions[OF ld2 lo2 ws' k2 len2] cells2 by simp
  have vals: "map ?val ?vtask1 = map ?val ?vtask2"
    by (simp add: MacroTaskInternal_new_def)
  have "\<exists>h4. run_seq (?vtask1 @ ?vtask2) c2 ?h2 = Inr h4 \<and> length h4 = length ?h2
            \<and> (\<forall>i<?n. h4 ! (handle_cells hdl1 ! i) = h4 ! (handle_cells hdl2 ! i))"
  proof (rule two_phase_run[where val = ?val])
    show "distinct (handle_cells hdl1)" "distinct (handle_cells hdl2)"
      unfolding cells1 cells2 by simp_all
    show "set (handle_cells hdl1) \<inter> set (handle_cells hdl2) = {}"
      unfolding cells1 cells2 by auto
    show "length (handle_cells hdl1) = ?n" "length (handle_cells hdl2) = ?n"
      unfolding cells1 cells2 by simp_all
    show "\<forall>a\<in>set (handle_cells hdl1) \<union> set (handle_cells hdl2). a < length ?h2"
      unfolding cells1 cells2 by auto
    show "\<forall>i<?n. ?h2 ! (handle_cells hdl1 ! i) = ?h2 ! (handle_cells hdl2 ! i)"
      unfolding cells1 cells2 by (simp add: nth_append)
    show "\<forall>r\<in>set ?vtask1. contribution r c2 = Inr (handle_cells hdl1, ?val r) \<and> length (?val r) = ?n"
      by (rule con1)
    show "\<forall>r\<in>set ?vtask2. contribution r c2 = Inr (handle_cells hdl2, ?val r) \<and> length (?val r) = ?n"
      by (rule con2)
    show "map ?val ?vtask1 = map ?val ?vtask2" by (rule vals)
  qed
  then obtain h4 where h4: "run_seq (?vtask1 @ ?vtask2) c2 ?h2 = Inr h4" "length h4 = length ?h2"
      "\<forall>i<?n. h4 ! (handle_cells hdl1 ! i) = h4 ! (handle_cells hdl2 ! i)"
    by blast
  have allw: "filter (\<lambda>r. stat r = Waiting) (?vtask1 @ ?vtask2) = ?vtask1 @ ?vtask2"
    by (simp add: MacroTaskInternal_new_def)
  have eqp: "\<forall>r\<in>set (taskq ?q2). stat r = Waiting \<longrightarrow> priority r = default_priority"
    by (auto simp: MacroTaskInternal_new_def)
  have loop: "run_all_loop ?q2 ?h2 = Inr (?q2\<lparr>taskq := mark_done (?vtask1 @ ?vtask2)\<rparr>, h4)"
    using run_all_loop_equal_priority[OF eqp, of ?h2] allw h4(1) by simp
  let ?q4 = "?q2\<lparr>taskq := mark_done (?vtask1 @ ?vtask2)\<rparr>"
  let ?u4 = "?u3\<lparr>impls := h4, queues := (queues ?u3)[?qp := ?q4]\<rparr>"
  have run: "taskq_run_all ?qp ?u3 = Inr ?u4"
    using loop by (simp add: taskq_run_all_def run_all_def)
  \<comment> \<open>the two results\<close>
  have b1: "\<forall>a\<in>set (handle_cells hdl1). a < length h4"
    unfolding cells1 h4(2) by auto
  have b2: "\<forall>a\<in>set (handle_cells hdl2). a < length h4"
    unfolding cells2 h4(2) by auto
  define v1 where "v1 = (case hdl1 of HFn a \<Rightarrow> RFn (h4 ! a) | HVec as \<Rightarrow> RVec (map (\<lambda>a. h4 ! a) as))"
  define v2 where "v2 = (case hdl2 of HFn a \<Rightarrow> RFn (h4 ! a) | HVec as \<Rightarrow> RVec (map (\<lambda>a. h4 ! a) as))"
  have de1: "deref h4 hdl1 = Inr v1" unfolding v1_def by (rule deref_handle[OF b1])
  have de2: "deref h4 hdl2 = Inr v2" unfolding v2_def by (rule deref_handle[OF b2])
  have cellmap: "map (\<lambda>a. h4 ! a) (handle_cells hdl1) = map (\<lambda>a. h4 ! a) (handle_cells hdl2)"
  proof (rule nth_equalityI)
    show "length (map (\<lambda>a. h4 ! a) (handle_cells hdl1)) = length (map (\<lambda>a. h4 ! a) (handle_cells hdl2))"
      unfolding cells1 cells2 by simp
  next
    fix i assume "i < length (map (\<lambda>a. h4 ! a) (handle_cells hdl1))"
    then have i: "i < ?n" unfolding cells1 by simp
    have l: "i < length (handle_cells hdl1)" "i < length (handle_cells hdl2)"
      using i unfolding cells1 cells2 by simp_all
    have "h4 ! (handle_cells hdl1 ! i) = h4 ! (handle_cells hdl2 ! i)" using h4(3) i by blast
    then show "map (\<lambda>a. h4 ! a) (handle_cells hdl1) ! i = map (\<lambda>a. h4 ! a) (handle_cells hdl2) ! i"
      unfolding nth_map[OF l(1)] nth_map[OF l(2)] .
  qed
  have veq: "v1 = v2"
  proof (cases "allocator t args")
    case (RFn z)
    then obtain a1 a2 where "hdl1 = HFn a1" "hdl2 = HFn a2" using kind1 kind2 by auto
    then show ?thesis using cellmap by (simp add: v1_def v2_def handle_cells_def)
  next
    case (RVec zs)
    then obtain as1 as2 where "hdl1 = HVec as1" "hdl2 = HVec as2" using kind1 kind2 by auto
    then show ?thesis using cellmap by (simp add: v1_def v2_def handle_cells_def)
  qed
  have fin: "cloud (queues ?u4 ! ?qp) = c2"
      "map inputrecords (taskq (queues ?u4 ! ?qp)) = replicate (2 * length bs) recs"
  proof -
    have q: "queues ?u4 ! ?qp = ?q4" by simp
    show "cloud (queues ?u4 ! ?qp) = c2" unfolding q by simp
    have "map inputrecords (mark_done (?vtask1 @ ?vtask2)) =
          map inputrecords (mark_done ?vtask1) @ map inputrecords (mark_done ?vtask2)"
      by (simp add: mark_done_def)
    also have "\<dots> = replicate (length bs) recs @ replicate (length bs) recs"
      by (simp only: mark_done_new)
    also have "\<dots> = replicate (2 * length bs) recs"
      by (simp add: replicate_add[symmetric] mult_2)
    finally show "map inputrecords (taskq (queues ?u4 ! ?qp)) = replicate (2 * length bs) recs"
      unfolding q by simp
  qed
  have tw: "test_twice P w t args u = Inr (v1, v1, c2, replicate (2 * length bs) recs)"
    unfolding test_twice_def Let_def new sum.case call1' prod.case call2' run
    using de1 de2 veq fin by simp
  have cnt: "\<forall>a\<in>set args. count_list c2 (arg_payload a) = 1"
  proof
    fix a assume "a \<in> set args"
    then obtain k where k: "k < length args" "args ! k = a" by (auto simp: in_set_conv_nth)
    then have "arg_payload a \<in> set c2" using p2 by (metis nth_mem)
    then show "count_list c2 (arg_payload a) = 1" by (rule count_list_distinct[OF dc2])
  qed
  show ?thesis using tw ld2 cnt by blast
qed

section \<open>Merging partial results\<close>

lemma insert_batch_length:
  "range_begin r + length xs \<le> length v \<Longrightarrow> length (insert_batch r v xs) = length v"
  by (simp add: insert_batch_def)

lemma insert_batch_nth:
  fixes xs :: "'x list"
  assumes "length xs = e - b" and "b \<le> e" and "e \<le> length v" and "i < length v"
  shows "insert_batch (Span b e) v xs ! i = (if b \<le> i \<and> i < e then xs ! (i - b) else v ! i)"
proof -
  have l: "length (take b v) = b" using assms by simp
  have ib: "insert_batch (Span b e) v xs = take b v @ xs @ drop e v"
    using assms by (simp add: insert_batch_def range_begin_def)
  show ?thesis
  proof (cases "i < b")
    case True
    then show ?thesis using l by (simp add: ib nth_append)
  next
    case False
    note nb = False
    show ?thesis
    proof (cases "i < e")
      case True
      then have "i - b < length xs" using assms(1) nb by simp
      then show ?thesis using l nb True by (simp add: ib nth_append)
    next
      case False
      then have "\<not> i - b < length xs" using assms(1,2) nb by simp
      then have "insert_batch (Span b e) v xs ! i = drop e v ! (i - b - length xs)"
        using l nb by (simp add: ib nth_append)
      also have "i - b - length xs = i - e" using assms(1,2) nb False by simp
      also have "drop e v ! (i - e) = v ! i" using assms False by simp
      finally show ?thesis using False by simp
    qed
  qed
qed

text \<open>
  Claim C5. A task execution whose inputs load from the store merges by
  accumulation. For a whole-object result \<open>x\<close> and the output function at cell \<open>a\<close>,
  the cell afterwards holds the old value plus \<open>x\<close>. For a sliced result \<open>xs\<close> of a
  batch with the output range from \<open>b\<close> to \<open>e\<close>, an allocator that returns \<open>n\<close> zero
  functions and an output vector of \<open>n\<close> distinct cells, provided \<open>y + 0 = y\<close> holds
  for the fields: the run succeeds, every cell inside the range holds its old value
  plus the element of \<open>xs\<close> for it, and every other cell of the universe, in
  particular the entries of the output outside the range, holds its old value.
\<close>

theorem run_accumulates:
  fixes h :: "('f::{plus,zero}) list"
  assumes "load_argtuple (inputrecords r) c = Inr argtuple"
  shows "(\<forall>a x. get_output r c = Inr (HFn a)
            \<and> task_op (task r) (copy_input_batch (batch (task r)) argtuple) = RFn x
            \<and> a < length h
          \<longrightarrow> run r c h = Inr (h[a := h ! a + x]))
       \<and> (\<forall>as xs n b e. get_output r c = Inr (HVec as)
            \<and> task_op (task r) (copy_input_batch (batch (task r)) argtuple) = RVec xs
            \<and> allocator (task r) argtuple = RVec (replicate n 0)
            \<and> b_result (batch (task r)) = Span b e
            \<and> length xs = e - b \<and> b \<le> e \<and> e \<le> n
            \<and> length as = n \<and> distinct as \<and> (\<forall>a\<in>set as. a < length h)
            \<and> (\<forall>y::'f. y + 0 = y)
          \<longrightarrow> (\<exists>h'. run r c h = Inr h' \<and> length h' = length h
                 \<and> (\<forall>i<n. h' ! (as ! i) =
                       (if b \<le> i \<and> i < e then h ! (as ! i) + xs ! (i - b) else h ! (as ! i)))
                 \<and> (\<forall>k. k \<notin> set as \<longrightarrow> h' ! k = h ! k)))"
proof (intro conjI allI impI)
  fix a x
  assume "get_output r c = Inr (HFn a)
            \<and> task_op (task r) (copy_input_batch (batch (task r)) argtuple) = RFn x
            \<and> a < length h"
  then show "run r c h = Inr (h[a := h ! a + x])"
    using assms by (simp add: run_def add_fn_def)
next
  fix as xs n b e
  assume a: "get_output r c = Inr (HVec as)
            \<and> task_op (task r) (copy_input_batch (batch (task r)) argtuple) = RVec xs
            \<and> allocator (task r) argtuple = RVec (replicate n 0)
            \<and> b_result (batch (task r)) = Span b e
            \<and> length xs = e - b \<and> b \<le> e \<and> e \<le> n
            \<and> length as = n \<and> distinct as \<and> (\<forall>a\<in>set as. a < length h)
            \<and> (\<forall>y::'f. y + 0 = y)"
  let ?tmp1 = "insert_batch (Span b e) (replicate n (0::'f)) xs"
  have run: "run r c h = add_vec as ?tmp1 h"
    using assms a by (simp add: run_def insert_result_batch_def)
  have len: "length ?tmp1 = n"
    using insert_batch_length[of "Span b e" xs "replicate n (0::'f)"] a by (simp add: range_begin_def)
  have nth: "?tmp1 ! i = (if b \<le> i \<and> i < e then xs ! (i - b) else 0)" if "i < n" for i
    using insert_batch_nth[of xs e b "replicate n (0::'f)" i] a that by simp
  obtain h' where h': "add_vec as ?tmp1 h = Inr h'"
    using add_vec_succeeds[of as ?tmp1 h] a len by auto
  have 1: "length h' = length h" using add_vec_length[OF h'] by simp
  have 2: "h' ! (as ! i) = (if b \<le> i \<and> i < e then h ! (as ! i) + xs ! (i - b) else h ! (as ! i))"
    if "i < n" for i
  proof -
    have "h' ! (as ! i) = h ! (as ! i) + ?tmp1 ! i"
      using add_vec_nth[OF h', of i] a that by simp
    then show ?thesis using nth[OF that] a by simp
  qed
  have 3: "\<forall>k. k \<notin> set as \<longrightarrow> h' ! k = h ! k"
    using add_vec_frame[OF h'] by simp
  show "\<exists>h'. run r c h = Inr h' \<and> length h' = length h
                 \<and> (\<forall>i<n. h' ! (as ! i) =
                       (if b \<le> i \<and> i < e then h ! (as ! i) + xs ! (i - b) else h ! (as ! i)))
                 \<and> (\<forall>k. k \<notin> set as \<longrightarrow> h' ! k = h ! k)"
    using run h' 1 2 3 by simp
qed

subsection \<open>Sums with at most one non-zero summand\<close>





subsection \<open>Running the batches of one output vector\<close>



section \<open>Concrete runs\<close>

text \<open>
  Claim C2. A \<^verbatim>\<open>MacroTask_2G\<close> constructed without a queue and called twice with the
  same arguments: the first call runs its records and returns the merged result
  (the vector 18, 30, 42; so does \<^verbatim>\<open>test_immediate\<close>). The second call finds the
  queue that the first call left in the member \<^verbatim>\<open>taskq_ptr\<close>, takes itself for
  deferred, only adds its records and returns the output as allocated: zeros, with
  the two records of the call still Waiting. The claim says the second call runs its
  records and returns the merged result as well.
\<close>

theorem second_immediate_call_not_run:
  "immediate_twice partitioner2 world0 MicroTask v3_args universe0
     = Inr (RVec [18, 30, 42], RVec [0, 0, 0], [Done, Done, Waiting, Waiting])
   \<and> test_immediate partitioner2 world0 MicroTask v3_args universe0 = Inr (RVec [18, 30, 42])"
  by code_simp

theorem double_submission_caching_witness:
  "partition_tasks (effective_partitioner partitioner2 world0 MicroTask) v3_args
     = Inr [batch_0_2, batch_2_3]
   \<and> well_shaped MicroTask v3_args [batch_0_2, batch_2_3]
   \<and> (\<exists>v c recs. test_twice partitioner2 world0 MicroTask v3_args universe0
                     = Inr (v, v, c, replicate (2 * length [batch_0_2, batch_2_3]) recs)
          \<and> load_argtuple recs c = Inr v3_args
          \<and> count_list c (PFn 3) = 1 \<and> count_list c (PScalar 2) = 1
          \<and> count_list c (PFnVec [3, 5, 7]) = 1)"
proof -
  have h1: "partition_tasks (effective_partitioner partitioner2 world0 MicroTask) v3_args
     = Inr [batch_0_2, batch_2_3]"
    by code_simp
  have h2: "well_shaped MicroTask v3_args [batch_0_2, batch_2_3]"
    by code_simp
  obtain v c recs where r:
      "test_twice partitioner2 world0 MicroTask v3_args universe0
         = Inr (v, v, c, replicate (2 * length [batch_0_2, batch_2_3]) recs)"
      "load_argtuple recs c = Inr v3_args"
      "\<forall>a\<in>set v3_args. count_list c (arg_payload a) = 1"
    using double_submission_caching[OF h1 h2, of universe0] by (elim exE conjE)
  have c1: "count_list c (PFn 3) = 1"
    using r(3)[rule_format, of "Fn 3"] by (simp add: v3_args_def arg_payload_def)
  have c2: "count_list c (PScalar 2) = 1"
    using r(3)[rule_format, of "Scalar 2"] by (simp add: v3_args_def arg_payload_def)
  have c3: "count_list c (PFnVec [3, 5, 7]) = 1"
    using r(3)[rule_format, of "FnVec [3, 5, 7]"] by (simp add: v3_args_def arg_payload_def)
  show ?thesis
    by (intro conjI h1 h2 exI[of _ v] exI[of _ c] exI[of _ recs] r(1) r(2) c1 c2 c3)
qed

theorem run_accumulates_witness:
  "load_argtuple (inputrecords (record_of MicroTask1 batch_0_2)) cloud_fn = Inr v3_args
   \<and> get_output (record_of MicroTask1 batch_0_2) cloud_fn = Inr (HFn 0)
   \<and> task_op (task (record_of MicroTask1 batch_0_2))
        (copy_input_batch (batch (task (record_of MicroTask1 batch_0_2))) v3_args) = RFn 204
   \<and> run (record_of MicroTask1 batch_0_2) cloud_fn [1000] = Inr [1204]
   \<and> load_argtuple (inputrecords (record_of MicroTask batch_0_2)) cloud_vec = Inr v3_args
   \<and> get_output (record_of MicroTask batch_0_2) cloud_vec = Inr (HVec [0, 1, 2])
   \<and> task_op (task (record_of MicroTask batch_0_2))
        (copy_input_batch (batch (task (record_of MicroTask batch_0_2))) v3_args) = RVec [18, 30]
   \<and> allocator (task (record_of MicroTask batch_0_2)) v3_args = RVec (replicate 3 0)
   \<and> b_result (batch (task (record_of MicroTask batch_0_2))) = Span 0 2
   \<and> (\<forall>y::int. y + 0 = y)
   \<and> (\<exists>h'. run (record_of MicroTask batch_0_2) cloud_vec [100, 200, 300] = Inr h'
          \<and> length h' = 3 \<and> h' ! 0 = 118 \<and> h' ! 1 = 230 \<and> h' ! 2 = 300)"
proof -
  let ?r1 = "record_of MicroTask1 batch_0_2"
  let ?r = "record_of MicroTask batch_0_2"
  have f1: "load_argtuple (inputrecords ?r1) cloud_fn = Inr v3_args" by code_simp
  have f2: "get_output ?r1 cloud_fn = Inr (HFn 0)" by code_simp
  have f3: "task_op (task ?r1) (copy_input_batch (batch (task ?r1)) v3_args) = RFn 204"
    by code_simp
  have f4: "run ?r1 cloud_fn [1000] = Inr ([1000][0 := [1000] ! 0 + 204])"
    using run_accumulates[OF f1, of "[1000]"] f2 f3 by simp
  have v1: "load_argtuple (inputrecords ?r) cloud_vec = Inr v3_args" by code_simp
  have v2: "get_output ?r cloud_vec = Inr (HVec [0, 1, 2])" by code_simp
  have v3: "task_op (task ?r) (copy_input_batch (batch (task ?r)) v3_args) = RVec [18, 30]"
    by code_simp
  have v4: "allocator (task ?r) v3_args = RVec (replicate 3 0)" by code_simp
  have v5: "b_result (batch (task ?r)) = Span 0 2" by code_simp
  have law: "\<forall>y::int. y + 0 = y" by simp
  have pre: "get_output ?r cloud_vec = Inr (HVec [0, 1, 2])
            \<and> task_op (task ?r) (copy_input_batch (batch (task ?r)) v3_args) = RVec [18, 30]
            \<and> allocator (task ?r) v3_args = RVec (replicate 3 0)
            \<and> b_result (batch (task ?r)) = Span 0 2
            \<and> length [18, 30::int] = 2 - 0 \<and> (0::nat) \<le> 2 \<and> (2::nat) \<le> 3
            \<and> length [0, 1, 2::nat] = 3 \<and> distinct [0, 1, 2::nat]
            \<and> (\<forall>a\<in>set [0, 1, 2::nat]. a < length [100, 200, 300::int])
            \<and> (\<forall>y::int. y + 0 = y)"
    using v2 v3 v4 v5 by simp
  have "\<exists>h'. run ?r cloud_vec [100, 200, 300] = Inr h' \<and> length h' = length [100, 200, 300::int]
                 \<and> (\<forall>i<3. h' ! ([0, 1, 2] ! i) =
                       (if 0 \<le> i \<and> i < 2 then [100, 200, 300] ! ([0, 1, 2] ! i) + [18, 30] ! (i - 0)
                        else [100, 200, 300] ! ([0, 1, 2] ! i)))
                 \<and> (\<forall>k. k \<notin> set [0, 1, 2] \<longrightarrow> h' ! k = [100, 200, 300] ! k)"
    using run_accumulates[OF v1, of "[100, 200, 300]", THEN conjunct2, rule_format, OF pre] .
  then obtain h' where h': "run ?r cloud_vec [100, 200, 300] = Inr h'" "length h' = 3"
      "\<forall>i<3. h' ! ([0, 1, 2] ! i) =
                       (if 0 \<le> i \<and> i < 2 then [100, 200, 300] ! ([0, 1, 2] ! i) + [18, 30] ! (i - 0)
                        else [100, 200, 300::int] ! ([0, 1, 2] ! i))"
    by auto
  have "h' ! 0 = 118" using h'(3)[rule_format, of 0] by simp
  moreover have "h' ! 1 = 230" using h'(3)[rule_format, of 1] by simp
  moreover have "h' ! 2 = 300" using h'(3)[rule_format, of 2] by simp
  ultimately have v6: "\<exists>h'. run ?r cloud_vec [100, 200, 300] = Inr h'
          \<and> length h' = 3 \<and> h' ! 0 = 118 \<and> h' ! 1 = 230 \<and> h' ! 2 = 300"
    using h'(1,2) by simp
  have f4': "run ?r1 cloud_fn [1000] = Inr [1204]" using f4 by simp
  show ?thesis
    by (intro conjI f1 f2 f3 f4' v1 v2 v3 v4 v5 law v6)
qed


end
